theory Spec2Isabelle
  imports Main "HOL-Library.Word"
begin

unbundle bit_operations_syntax

section \<open>Bytes and the Python byte-string operations used by camera.py\<close>

type_synonym byte = "8 word"

text \<open>Python's \<open>b[i:j]\<close> for indices \<open>0 \<le> i\<close>, \<open>0 \<le> j\<close>: the slice is clipped to the
  string and empty when \<open>j \<le> i\<close>.\<close>

definition slice :: "'a list \<Rightarrow> nat \<Rightarrow> nat \<Rightarrow> 'a list" where
  "slice xs i j = take (j - i) (drop i xs)"

text \<open>\<open>sub\<close> occurs in \<open>xs\<close> at offset \<open>i\<close>.\<close>

definition occurs_at :: "'a list \<Rightarrow> 'a list \<Rightarrow> nat \<Rightarrow> bool" where
  "occurs_at sub xs i \<longleftrightarrow> i + length sub \<le> length xs \<and> take (length sub) (drop i xs) = sub"

text \<open>The offsets at which a substring of that length can start.\<close>

definition offsets :: "'a list \<Rightarrow> 'a list \<Rightarrow> nat list" where
  "offsets sub xs = [0 ..< Suc (length xs) - length sub]"

text \<open>\<open>bytes.find\<close>: the lowest offset of an occurrence, \<open>-1\<close> when there is none;
  \<open>bytes.rfind\<close>: the highest one.\<close>

definition find_bytes :: "'a list \<Rightarrow> 'a list \<Rightarrow> int" where
  "find_bytes xs sub =
     (case List.find (occurs_at sub xs) (offsets sub xs) of
        None \<Rightarrow> - 1 | Some i \<Rightarrow> int i)"

definition rfind_bytes :: "'a list \<Rightarrow> 'a list \<Rightarrow> int" where
  "rfind_bytes xs sub =
     (case List.find (occurs_at sub xs) (rev (offsets sub xs)) of
        None \<Rightarrow> - 1 | Some i \<Rightarrow> int i)"

text \<open>\<open>int.from_bytes(bs, signed=False, byteorder="little")\<close>.\<close>

definition from_bytes_little :: "byte list \<Rightarrow> nat" where
  "from_bytes_little bs = foldr (\<lambda>b acc. unat b + 256 * acc) bs 0"

section \<open>The checksum of libscrc\<close>

text \<open>\<open>libscrc.rohc\<close> is the CRC-8/ROHC of the external library libscrc: polynomial
  \<open>0x07\<close> processed reflected (\<open>0xE0\<close>), initial value \<open>0xFF\<close>, no final xor.\<close>

definition rohc_bit :: "byte \<Rightarrow> byte" where
  "rohc_bit c = (if bit c 0 then drop_bit 1 c XOR 0xE0 else drop_bit 1 c)"

definition rohc_byte :: "byte \<Rightarrow> byte \<Rightarrow> byte" where
  "rohc_byte c b = (rohc_bit ^^ 8) (c XOR b)"

definition rohc :: "byte list \<Rightarrow> byte" where
  "rohc bs = foldl rohc_byte 0xFF bs"

text \<open>\<open>(~rohc(data) & 0xFF).to_bytes(1, "little")\<close>: the one byte the frame must carry.\<close>

definition checksum_byte :: "byte list \<Rightarrow> byte list" where
  "checksum_byte payload = [NOT (rohc payload)]"

section \<open>Double-precision arithmetic of the Python floats\<close>

text \<open>A positive double is \<open>mant * 2 ^ expo\<close> with a mantissa of at most 53 bits. The
  values camera.py computes are far from overflow and from the subnormal range, so the
  exponent is unbounded here. Every operation is the exact result rounded to nearest,
  ties to even, as IEEE 754 prescribes.\<close>

record double =
  mant :: nat
  expo :: int

fun bit_length :: "nat \<Rightarrow> nat" where
  "bit_length n = (if n = 0 then 0 else Suc (bit_length (n div 2)))"

declare bit_length.simps [simp del]

text \<open>Round the exact value \<open>m * 2 ^ e\<close> to 53 bits.\<close>

definition round53 :: "nat \<Rightarrow> int \<Rightarrow> double" where
  "round53 m e =
     (if bit_length m \<le> 53 then \<lparr>mant = m, expo = e\<rparr>
      else let s = bit_length m - 53;
               q = m div 2 ^ s;
               r = m mod 2 ^ s;
               half = 2 ^ (s - 1);
               q' = (if r < half then q else if half < r then q + 1 else q + q mod 2)
           in \<lparr>mant = q', expo = e + int s\<rparr>)"

text \<open>An \<open>int\<close> converted to float.\<close>

definition of_int_double :: "nat \<Rightarrow> double" where
  "of_int_double n = round53 n 0"

text \<open>\<open>a / b\<close> for positive integers: a quotient with more than 64 bits and a sticky
  bit for the remainder, rounded once.\<close>

definition div_double :: "nat \<Rightarrow> nat \<Rightarrow> double" where
  "div_double a b =
     (let t = 64 + bit_length b;
          q = (a * 2 ^ t) div b;
          sticky = (if (a * 2 ^ t) mod b = 0 then 0 else 1)
      in round53 (2 * q + sticky) (- int t - 1))"

definition mul_double :: "double \<Rightarrow> double \<Rightarrow> double" where
  "mul_double x y = round53 (mant x * mant y) (expo x + expo y)"

text \<open>\<open>int(x)\<close> for a positive float: truncation.\<close>

definition int_of_double :: "double \<Rightarrow> nat" where
  "int_of_double x =
     (if 0 \<le> expo x then mant x * 2 ^ nat (expo x) else mant x div 2 ^ nat (- expo x))"

text \<open>\<open>n > x\<close> for an \<open>int\<close> and a float: Python compares the exact values.\<close>

definition int_gt_double :: "nat \<Rightarrow> double \<Rightarrow> bool" where
  "int_gt_double n x \<longleftrightarrow>
     (if 0 \<le> expo x then mant x * 2 ^ nat (expo x) < n
      else mant x < n * 2 ^ nat (- expo x))"

text \<open>The literal \<open>2.3\<close>: the double nearest to 23/10.\<close>

definition lit_2_3 :: double where
  "lit_2_3 = div_double 23 10"


section \<open>Data model of camera.py\<close>

definition BUFFER_SIZE :: nat where
  "BUFFER_SIZE = 32768"

definition MAX_RESOLUTION :: nat where
  "MAX_RESOLUTION = 600"

definition ETVR_HEADER :: "byte list" where
  "ETVR_HEADER = [0xFF, 0xA0, 0xFF, 0xA1]"

definition ETVR_HEADER_LEN :: nat where
  "ETVR_HEADER_LEN = 6"

datatype CameraState = CONNECTING | CONNECTED | DISCONNECTED

text \<open>A capture source is a string (a device name, a URL, a serial port) or, once
  resolved by \<open>get_camera_index_by_name\<close>, a device index.\<close>

datatype source = Name string | Index int

text \<open>An exception raised by pyserial, OpenCV or the code itself. camera.py catches
  every one of them with \<open>except Exception\<close>, so one value stands for all.\<close>

datatype error = Exception

text \<open>An image is known by its \<open>shape\<close>: height, width and, for colour images, the
  number of channels. Pixel values play no part in camera.py.\<close>

type_synonym image = "nat list"

text \<open>\<open>serial.Serial\<close>: the port it was opened on and whether it is open.\<close>

record serial_port =
  port :: source
  is_open :: bool

text \<open>\<open>cv2.VideoCapture\<close>: what it was opened with and the properties set on it.\<close>

record video_capture =
  cap_source :: "source option"
  cap_ffmpeg :: bool
  cap_frame_width :: "int option"
  cap_frame_height :: "int option"
  cap_fps :: "int option"

text \<open>What the object did to the outside world, oldest first.\<close>

datatype event =
    StartSerialConnection source
  | SerialOpened source
  | SerialClosed
  | VideoCaptureOpened video_capture
  | SerialRead
  | VideoCaptureRead

text \<open>The fields of \<open>Camera\<close>. The output queue holds the images put on it (the
  sequence marker and the fps estimate that travel with each image come from the clock
  and are left out, as are \<open>fps\<close>, \<open>bps\<close> and \<open>last_frame_time\<close>).\<close>

record camera =
  camera_status :: CameraState
  camera_list :: "string list"
  current_capture_source :: "source option"
  cv2_camera :: "video_capture option"
  serial_connection :: "serial_port option"
  buffer :: "byte list"
  sp_max :: nat
  FRAME_SIZE :: image
  camera_output_outgoing :: "image list"
  capture_event :: bool
  events :: "event list"

text \<open>\<open>Camera.__init__\<close>, given \<open>config.capture_source\<close> and the names that
  \<open>list_camera_names()\<close> returns.\<close>

definition init :: "source option \<Rightarrow> string list \<Rightarrow> camera" where
  "init src names =
     \<lparr>camera_status = CONNECTING, camera_list = names, current_capture_source = src,
      cv2_camera = None, serial_connection = None, buffer = [], sp_max = 2560,
      FRAME_SIZE = [0, 0], camera_output_outgoing = [], capture_event = False,
      events = []\<rparr>"

section \<open>The serial framer\<close>

text \<open>What the serial port answers during one call of \<open>get_next_jpeg_frame\<close>: the
  bytes waiting for \<open>read(2048)\<close>, the value of \<open>in_waiting\<close> after the header was
  found, and the bytes waiting for \<open>read(in_waiting)\<close>. \<open>None\<close> is a raised exception.\<close>

record serial_io =
  rx1 :: "byte list option"
  in_waiting :: "nat option"
  rx2 :: "byte list option"

text \<open>\<open>serial_read\<close>: \<open>read(rb)\<close> returns at most \<open>rb\<close> bytes.\<close>

definition serial_read :: "byte list option \<Rightarrow> nat \<Rightarrow> camera \<Rightarrow> error + nat \<times> camera" where
  "serial_read rx rb c =
     (case rx of
        None \<Rightarrow> Inl Exception
      | Some bs \<Rightarrow>
          let c' = c\<lparr>buffer := buffer c @ take rb bs, events := events c @ [SerialRead]\<rparr>
          in Inr (length (buffer c'), c'))"

text \<open>\<open>buffer_len > self.sp_max * 2.3\<close>, in double precision.\<close>

definition skip_frames :: "nat \<Rightarrow> nat \<Rightarrow> bool" where
  "skip_frames buffer_len sp \<longleftrightarrow> int_gt_double buffer_len (mul_double (of_int_double sp) lit_2_3)"

text \<open>Lines 207 to 212: where the header is looked for.\<close>

definition header_search :: "nat \<Rightarrow> byte list \<Rightarrow> int" where
  "header_search sp buf =
     (if skip_frames (length buf) sp then rfind_bytes buf ETVR_HEADER
      else find_bytes buf ETVR_HEADER)"

text \<open>Lines 220 to 234: the buffer starts with the header and \<open>end\<close> is known.\<close>

definition check_frame :: "nat \<Rightarrow> nat \<Rightarrow> camera \<Rightarrow> (error + byte list option) \<times> camera" where
  "check_frame end buffer_len c =
     (if end \<le> buffer_len \<and> slice (buffer c) (end - 4) (end - 2) = [0xFF, 0xD9] then
        if slice (buffer c) (end - 2) end \<noteq> [0xFF, 0xA0]
           \<and> slice (buffer c) (end - 2) (end - 1)
               \<noteq> checksum_byte (slice (buffer c) ETVR_HEADER_LEN (end - 2))
        then (Inr None, c\<lparr>buffer := drop end (buffer c)\<rparr>)
        else
          let c' = (if sp_max c < end then c\<lparr>sp_max := end\<rparr> else c);
              jpeg = slice (buffer c') ETVR_HEADER_LEN (end - 2)
          in (Inr (Some jpeg), c'\<lparr>buffer := drop (end - 2) (buffer c')\<rparr>)
      else (Inr None, if sp_max c < end then c\<lparr>sp_max := end\<rparr> else c))"

text \<open>\<open>get_next_jpeg_frame\<close>. The result \<open>Inr None\<close> is Python's \<open>False\<close>.\<close>

definition get_next_jpeg_frame :: "serial_io \<Rightarrow> camera \<Rightarrow> (error + byte list option) \<times> camera" where
  "get_next_jpeg_frame conn c =
     (case serial_read (rx1 conn) 2048 c of
        Inl e \<Rightarrow> (Inl e, c)
      | Inr (buffer_len, c1) \<Rightarrow>
          if ETVR_HEADER_LEN \<le> buffer_len then
            let beg = header_search (sp_max c1) (buffer c1) in
            if beg \<noteq> - 1 then
              let c2 = c1\<lparr>buffer := drop (nat beg) (buffer c1)\<rparr>;
                  buffer_len = length (buffer c2)
              in if ETVR_HEADER_LEN \<le> buffer_len then
                   let end = from_bytes_little (slice (buffer c2) 4 ETVR_HEADER_LEN)
                               + ETVR_HEADER_LEN + 2
                   in case in_waiting conn of
                        None \<Rightarrow> (Inl Exception, c2)
                      | Some w \<Rightarrow>
                          (case (if end \<le> w then serial_read (rx2 conn) w c2
                                 else Inr (buffer_len, c2)) of
                             Inl e \<Rightarrow> (Inl e, c2)
                           | Inr (buffer_len, c3) \<Rightarrow> check_frame end buffer_len c3)
                 else (Inr None, c2)
            else (Inr None, c1)
          else (Inr None, c1))"

section \<open>Resolution clamp\<close>

text \<open>\<open>cv2.resize(image, (width, height))\<close> on an array of two or three dimensions:
  OpenCV raises on an empty image, on an empty target size and on more than 512
  channels (\<open>CV_CN_MAX\<close>); the first two dimensions of the shape become \<open>height\<close> and
  \<open>width\<close>, and a channel axis of length one is dropped from the result.\<close>

definition resize :: "image \<Rightarrow> nat \<Rightarrow> nat \<Rightarrow> error + image" where
  "resize img width height =
     (if width = 0 \<or> height = 0 then Inl Exception
      else
        (case img of
           [h, w] \<Rightarrow> if h = 0 \<or> w = 0 then Inl Exception else Inr [height, width]
         | [h, w, ch] \<Rightarrow>
             if h = 0 \<or> w = 0 \<or> ch = 0 \<or> 512 < ch then Inl Exception
             else if ch = 1 then Inr [height, width]
             else Inr [height, width, ch]
         | _ \<Rightarrow> Inl Exception))"

text \<open>\<open>clamp_max_res\<close>. \<open>np.max(shape)\<close> raises on an empty shape and \<open>shape[1]\<close> on a
  shape of one dimension.\<close>

definition clamp_max_res :: "image \<Rightarrow> error + image" where
  "clamp_max_res img =
     (let shape = img in
      if shape = [] then Inl Exception
      else
        let max_value = foldr max shape 0 in
        if MAX_RESOLUTION < max_value then
          if length shape < 2 then Inl Exception
          else
            let scale = div_double MAX_RESOLUTION max_value;
                width = int_of_double (mul_double (of_int_double (shape ! 1)) scale);
                height = int_of_double (mul_double (of_int_double (shape ! 0)) scale)
            in resize img width height
        else Inr img)"

text \<open>A sequence of calls of \<open>get_next_jpeg_frame\<close> on one \<open>Camera\<close>, one answer of the
  port per call; the results of the calls are dropped.\<close>

fun get_next_jpeg_frames :: "serial_io list \<Rightarrow> camera \<Rightarrow> camera" where
  "get_next_jpeg_frames [] c = c"
| "get_next_jpeg_frames (conn # conns) c =
     get_next_jpeg_frames conns (snd (get_next_jpeg_frame conn c))"

section \<open>The capture loop\<close>

text \<open>The fields of \<open>BabbleConfig\<close> and \<open>BabbleSettingsConfig\<close> that \<open>Camera.run\<close> reads.\<close>

record config =
  capture_source :: "source option"
  use_ffmpeg :: bool

record settings =
  gui_cam_resolution_x :: int
  gui_cam_resolution_y :: int
  gui_cam_framerate :: int

text \<open>What the rest of the program and the devices answer during one iteration of the
  loop: the configuration as the GUI thread left it, the two events, the serial ports
  enumerated, whether opening the port succeeds, \<open>cv2_camera.isOpened()\<close>, the index
  \<open>get_camera_index_by_name\<close> returns, the result of \<open>cv2_camera.read()\<close> (\<open>None\<close> when it
  raises, \<open>Some None\<close> when \<open>ret\<close> is false), \<open>in_waiting\<close> at lines 241 and 267 (\<open>None\<close> when
  it raises), the port's answers to the framer, and the image \<open>cv2.imdecode\<close> returns.\<close>

record world =
  config :: config
  settings :: settings
  cancellation_is_set :: bool
  cancellation_wait :: bool
  capture_wait :: bool
  comports :: "string list list"
  serial_opens :: bool
  isOpened :: bool
  camera_index_by_name :: int
  cv2_read :: "image option option"
  in_waiting_first :: "nat option"
  serial :: serial_io
  imdecode :: "image option"
  in_waiting_last :: "nat option"

text \<open>\<open>str(x)\<close> for a capture source.\<close>

fun decimal :: "nat \<Rightarrow> string" where
  "decimal n =
     (if n < 10 then [char_of (48 + n)] else decimal (n div 10) @ [char_of (48 + n mod 10)])"

declare decimal.simps [simp del]

definition str :: "source \<Rightarrow> string" where
  "str x =
     (case x of
        Name s \<Rightarrow> s
      | Index i \<Rightarrow> if i < 0 then CHR ''-'' # decimal (nat (- i)) else decimal (nat i))"

text \<open>\<open>sub in s\<close> for strings.\<close>

definition contains :: "string \<Rightarrow> string \<Rightarrow> bool" where
  "contains sub s \<longleftrightarrow> find_bytes s sub \<noteq> - 1"

text \<open>\<open>x in self.camera_list\<close>: an index is never equal to a name.\<close>

definition in_camera_list :: "source \<Rightarrow> string list \<Rightarrow> bool" where
  "in_camera_list x names = (case x of Name s \<Rightarrow> s \<in> set names | Index i \<Rightarrow> False)"

text \<open>\<open>any(p for p in com_ports if port in p)\<close>: some enumerated port tuple has the port
  among its entries.\<close>

definition port_listed :: "source \<Rightarrow> string list list \<Rightarrow> bool" where
  "port_listed prt ports =
     (case prt of Name s \<Rightarrow> list_ex (\<lambda>p. s \<in> set p) ports | Index i \<Rightarrow> False)"

text \<open>\<open>self.serial_connection.close()\<close>.\<close>

definition serial_close :: "camera \<Rightarrow> camera" where
  "serial_close c =
     (case serial_connection c of
        None \<Rightarrow> c
      | Some conn \<Rightarrow>
          c\<lparr>serial_connection := Some (conn\<lparr>is_open := False\<rparr>),
            events := events c @ [SerialClosed]\<rparr>)"

text \<open>\<open>Camera.__del__\<close>.\<close>

definition dunder_del :: "camera \<Rightarrow> camera" where
  "dunder_del c = (if serial_connection c \<noteq> None then serial_close c else c)"

text \<open>\<open>start_serial_connection\<close>.\<close>

definition start_serial_connection :: "world \<Rightarrow> source \<Rightarrow> camera \<Rightarrow> camera" where
  "start_serial_connection w prt c0 =
     (let c = c0\<lparr>events := events c0 @ [StartSerialConnection prt]\<rparr>;
          already = (case serial_connection c of
                       Some conn \<Rightarrow> is_open conn \<and> port conn = prt
                     | None \<Rightarrow> False);
          c1 = (case serial_connection c of
                  Some conn \<Rightarrow> if is_open conn then serial_close c else c
                | None \<Rightarrow> c)
      in if already then c
         else if \<not> port_listed prt (comports w) then c1
         else if serial_opens w then
           c1\<lparr>serial_connection := Some \<lparr>port = prt, is_open = True\<rparr>,
              camera_status := CONNECTED,
              events := events c1 @ [SerialOpened prt]\<rparr>
         else c1\<lparr>camera_status := DISCONNECTED\<rparr>)"

text \<open>\<open>push_image_to_queue\<close>: the backpressure warning is only printed; the image is
  clamped, put on the queue and the capture event cleared.\<close>

definition push_image_to_queue :: "image \<Rightarrow> camera \<Rightarrow> (error + unit) \<times> camera" where
  "push_image_to_queue img c =
     (case clamp_max_res img of
        Inl e \<Rightarrow> (Inl e, c)
      | Inr clamped \<Rightarrow>
          (Inr (),
           c\<lparr>camera_output_outgoing := camera_output_outgoing c @ [clamped],
             capture_event := False\<rparr>))"

text \<open>\<open>get_cv2_camera_picture\<close>: every exception ends in \<open>DISCONNECTED\<close>.\<close>

definition get_cv2_camera_picture :: "world \<Rightarrow> bool \<Rightarrow> camera \<Rightarrow> camera" where
  "get_cv2_camera_picture w should_push c =
     (case cv2_camera c of
        None \<Rightarrow> c\<lparr>camera_status := DISCONNECTED\<rparr>
      | Some cap \<Rightarrow>
          let c1 = c\<lparr>events := events c @ [VideoCaptureRead]\<rparr> in
          (case cv2_read w of
             None \<Rightarrow> c1\<lparr>camera_status := DISCONNECTED\<rparr>
           | Some None \<Rightarrow> c1\<lparr>camera_status := DISCONNECTED\<rparr>
           | Some (Some img) \<Rightarrow>
               let c2 = c1\<lparr>FRAME_SIZE := img\<rparr> in
               if should_push then
                 (case push_image_to_queue img c2 of
                    (Inl e, c3) \<Rightarrow> c3\<lparr>camera_status := DISCONNECTED\<rparr>
                  | (Inr u, c3) \<Rightarrow> c3)
               else c2))"

text \<open>Lines 267 to 270: the serial buffer is discarded when it ran too far ahead.\<close>

definition discard_serial_buffer :: "world \<Rightarrow> camera \<Rightarrow> (error + unit) \<times> camera" where
  "discard_serial_buffer w c =
     (case in_waiting_last w of
        None \<Rightarrow> (Inl Exception, c)
      | Some n \<Rightarrow> (Inr (), if BUFFER_SIZE \<le> n then c\<lparr>buffer := []\<rparr> else c))"

text \<open>Lines 241 to 270: the body of the \<open>try\<close> of \<open>get_serial_camera_picture\<close>.\<close>

definition serial_try :: "world \<Rightarrow> bool \<Rightarrow> camera \<Rightarrow> (error + unit) \<times> camera" where
  "serial_try w should_push c =
     (case in_waiting_first w of
        None \<Rightarrow> (Inl Exception, c)
      | Some n \<Rightarrow>
          if n = 0 then (Inr (), c)
          else
            (case get_next_jpeg_frame (serial w) c of
               (Inl e, c1) \<Rightarrow> (Inl e, c1)
             | (Inr jpeg, c1) \<Rightarrow>
                 if jpeg \<noteq> None \<and> jpeg \<noteq> Some [] then
                   (case imdecode w of
                      None \<Rightarrow> (Inr (), c1)
                    | Some img \<Rightarrow>
                        if should_push then
                          (case push_image_to_queue img c1 of
                             (Inl e, c2) \<Rightarrow> (Inl e, c2)
                           | (Inr u, c2) \<Rightarrow> discard_serial_buffer w c2)
                        else discard_serial_buffer w c1)
                 else discard_serial_buffer w c1))"

text \<open>\<open>get_serial_camera_picture\<close>.\<close>

definition get_serial_camera_picture :: "world \<Rightarrow> bool \<Rightarrow> camera \<Rightarrow> camera" where
  "get_serial_camera_picture w should_push c =
     (if serial_connection c = None \<or> camera_status c = DISCONNECTED then c
      else
        (case serial_try w should_push c of
           (Inl e, c1) \<Rightarrow> (serial_close c1)\<lparr>camera_status := DISCONNECTED\<rparr>
         | (Inr u, c1) \<Rightarrow> c1))"

text \<open>Lines 155 to 157: no capture source yet. The first component says that \<open>run\<close>
  returned, the second is \<open>should_push\<close>.\<close>

definition wait_for_source :: "world \<Rightarrow> camera \<Rightarrow> bool \<times> bool \<times> camera" where
  "wait_for_source w c =
     (if cancellation_wait w then (True, True, c\<lparr>camera_status := DISCONNECTED\<rparr>)
      else (False, True, c))"

text \<open>\<open>cv2.VideoCapture(...)\<close> followed by the three \<open>set\<close> calls of lines 138 to 151.\<close>

definition open_video_capture :: "source option \<Rightarrow> config \<Rightarrow> settings \<Rightarrow> video_capture" where
  "open_video_capture cur cfg st =
     \<lparr>cap_source = cur, cap_ffmpeg = use_ffmpeg cfg,
      cap_frame_width =
        (if gui_cam_resolution_x st \<noteq> 0 then Some (gui_cam_resolution_x st) else None),
      cap_frame_height =
        (if gui_cam_resolution_y st \<noteq> 0 then Some (gui_cam_resolution_y st) else None),
      cap_fps = (if gui_cam_framerate st \<noteq> 0 then Some (gui_cam_framerate st) else None)\<rparr>"

text \<open>Lines 96 to 157: open what the configured source needs.\<close>

definition open_capture_source :: "world \<Rightarrow> camera \<Rightarrow> bool \<times> bool \<times> camera" where
  "open_capture_source w c =
     (case capture_source (config w) of
        None \<Rightarrow> wait_for_source w c
      | Some src \<Rightarrow>
          if src = Name [] then wait_for_source w c
          else if contains ''COM'' (str src) then
            (if serial_connection c = None \<or> camera_status c = DISCONNECTED
                \<or> current_capture_source c \<noteq> Some src
             then (False, True,
                   start_serial_connection w src (c\<lparr>current_capture_source := Some src\<rparr>))
             else (False, True, c))
          else
            (if cv2_camera c = None \<or> \<not> isOpened w \<or> camera_status c = DISCONNECTED
                \<or> current_capture_source c \<noteq> Some src
             then
               if cancellation_wait w then (True, True, c)
               else
                 let cur = (if \<not> in_camera_list src (camera_list c) then Some src
                            else Some (Index (camera_index_by_name w)));
                     cap = open_video_capture cur (config w) (settings w)
                 in (False, False,
                     c\<lparr>current_capture_source := cur, cv2_camera := Some cap,
                       events := events c @ [VideoCaptureOpened cap]\<rparr>)
             else (False, True, c)))"

text \<open>One iteration of the \<open>while True\<close> of \<open>run\<close>: whether \<open>run\<close> returned, and the camera
  afterwards.\<close>

definition run_iteration :: "world \<Rightarrow> camera \<Rightarrow> bool \<times> camera" where
  "run_iteration w c =
     (if cancellation_is_set w then (True, c)
      else
        (case open_capture_source w c of
           (returned, should_push, c1) \<Rightarrow>
             if returned then (True, c1)
             else if should_push \<and> \<not> capture_wait w then (False, c1)
             else
               let c1' = (if should_push then c1\<lparr>capture_event := True\<rparr> else c1) in
               (case capture_source (config w) of
                  None \<Rightarrow> (False, c1')
                | Some src \<Rightarrow>
                    let c2 = (if contains ''COM'' (str src) \<or> contains ''/dev/tty'' (str src)
                              then get_serial_camera_picture w should_push c1'
                              else get_cv2_camera_picture w should_push (dunder_del c1'))
                    in (False, if \<not> should_push then c2\<lparr>camera_status := CONNECTED\<rparr> else c2))))"

text \<open>\<open>run\<close>, observed for as many iterations as there are answers of the world.\<close>

fun run :: "world list \<Rightarrow> camera \<Rightarrow> camera" where
  "run [] c = c"
| "run (w # ws) c = (case run_iteration w c of (returned, c') \<Rightarrow> if returned then c' else run ws c')"

section \<open>Sample inputs\<close>

text \<open>A port that delivers one frame with a four-byte JPEG body, its checksum and one
  more byte.\<close>

definition one_frame_io :: serial_io where
  "one_frame_io =
     \<lparr>rx1 = Some (ETVR_HEADER @ [4, 0, 0x41, 0x42, 0xFF, 0xD9, 0x3E, 0]),
      in_waiting = Some 0, rx2 = Some []\<rparr>"

text \<open>A port that delivers the given bytes to \<open>read(2048)\<close> and reports nothing more
  waiting.\<close>

definition frame_io :: "byte list \<Rightarrow> serial_io" where
  "frame_io bs = \<lparr>rx1 = Some bs, in_waiting = Some 0, rx2 = Some []\<rparr>"

text \<open>Bytes that are no part of any header.\<close>

definition zeros :: "nat \<Rightarrow> byte list" where
  "zeros n = replicate n 0"

text \<open>Two whole frames with four-byte JPEG bodies and their checksums; the second is
  followed by one more byte.\<close>

definition first_frame :: "byte list" where
  "first_frame = ETVR_HEADER @ [4, 0, 0x41, 0x42, 0xFF, 0xD9, 0x3E]"

definition last_frame :: "byte list" where
  "last_frame = ETVR_HEADER @ [4, 0, 0x43, 0x44, 0xFF, 0xD9, 0x44, 0]"

text \<open>A camera that has fallen behind: the accumulator holds the first frame and \<open>n\<close>
  bytes that arrived after it, and the largest frame end seen is \<open>sp\<close>.\<close>

definition backlog :: "nat \<Rightarrow> nat \<Rightarrow> camera" where
  "backlog sp n = (init None [])\<lparr>sp_max := sp, buffer := first_frame @ zeros n\<rparr>"

text \<open>A port that delivers a frame of 2562 JPEG bytes sent without a checksum, then the
  first frame and 5888 more bytes: 2048 bytes to the first read and the other 6419 to the
  second. The camera that has read them from its initial state has fallen behind.\<close>

definition stale_io :: serial_io where
  "stale_io =
     \<lparr>rx1 = Some (ETVR_HEADER @ [0x02, 0x0A] @ zeros 2042),
      in_waiting = Some 6419,
      rx2 = Some (zeros 518 @ [0xFF, 0xD9] @ first_frame @ zeros 5888)\<rparr>"

definition fallen_behind :: camera where
  "fallen_behind = snd (get_next_jpeg_frame stale_io (init None []))"


text \<open>The configured source is a \<open>/dev/tty\<close> port whose name does not contain \<open>COM\<close>.\<close>

definition tty_source :: "world \<Rightarrow> bool" where
  "tty_source w =
     (case capture_source (config w) of
        None \<Rightarrow> False
      | Some src \<Rightarrow> contains ''/dev/tty'' (str src) \<and> \<not> contains ''COM'' (str src))"

text \<open>The event is the opening of a \<open>cv2.VideoCapture\<close>.\<close>

definition is_video_capture_opened :: "event \<Rightarrow> bool" where
  "is_video_capture_opened ev = (case ev of VideoCaptureOpened cap \<Rightarrow> True | _ \<Rightarrow> False)"

text \<open>The events that are not the opening of a \<open>cv2.VideoCapture\<close>.\<close>

definition other_events :: "event list \<Rightarrow> event list" where
  "other_events evs = filter (\<lambda>ev. \<not> is_video_capture_opened ev) evs"

text \<open>A world in which nothing is configured and nothing answers.\<close>

definition idle_world :: world where
  "idle_world =
     \<lparr>config = \<lparr>capture_source = None, use_ffmpeg = False\<rparr>,
      settings = \<lparr>gui_cam_resolution_x = 0, gui_cam_resolution_y = 0, gui_cam_framerate = 0\<rparr>,
      cancellation_is_set = False, cancellation_wait = False, capture_wait = False,
      comports = [], serial_opens = False, isOpened = False, camera_index_by_name = 0,
      cv2_read = None, in_waiting_first = None, serial = frame_io [], imdecode = None,
      in_waiting_last = None\<rparr>"

text \<open>The source is \<open>/dev/ttyUSB0\<close> and the consumer asks for a frame.\<close>

definition tty_world :: world where
  "tty_world =
     idle_world\<lparr>config := \<lparr>capture_source = Some (Name ''/dev/ttyUSB0''), use_ffmpeg = False\<rparr>,
                capture_wait := True, isOpened := True\<rparr>"

text \<open>The source is \<open>COM3\<close>, the port is enumerated and opens; nobody asks for a frame.\<close>

definition com_world :: world where
  "com_world =
     idle_world\<lparr>config := \<lparr>capture_source = Some (Name ''COM3''), use_ffmpeg = False\<rparr>,
                comports := [[''COM3'', ''USB Serial Device'', ''USB VID:PID'']],
                serial_opens := True\<rparr>"

text \<open>The same, and the consumer asks for a frame while the port holds one whole frame
  that decodes to a 240 by 240 image.\<close>

definition com_frame_world :: world where
  "com_frame_world =
     com_world\<lparr>capture_wait := True, in_waiting_first := Some 14,
               serial := frame_io (ETVR_HEADER @ [4, 0, 0x41, 0x42, 0xFF, 0xD9, 0x3E, 1, 2, 3]),
               imdecode := Some [240, 240], in_waiting_last := Some 0\<rparr>"

text \<open>A webcam named \<open>cam\<close> that delivers 640 by 480 colour frames, while the settings
  ask for 1280 by 720 at 30 frames per second through FFmpeg.\<close>

definition cam_world :: world where
  "cam_world =
     idle_world\<lparr>config := \<lparr>capture_source = Some (Name ''cam''), use_ffmpeg = True\<rparr>,
                settings := \<lparr>gui_cam_resolution_x = 1280, gui_cam_resolution_y = 720,
                             gui_cam_framerate = 30\<rparr>,
                capture_wait := True, isOpened := True,
                cv2_read := Some (Some [480, 640, 3])\<rparr>"

text \<open>That webcam, opened earlier at 640 by 480 without FFmpeg, and connected.\<close>

definition cam_connected :: camera where
  "cam_connected =
     (init (Some (Name ''cam'')) [])
       \<lparr>camera_status := CONNECTED,
        cv2_camera := Some \<lparr>cap_source = Some (Name ''cam''), cap_ffmpeg = False,
                             cap_frame_width = Some 640, cap_frame_height = Some 480,
                             cap_fps = None\<rparr>\<rparr>"
section \<open>Evaluation of the checksum and of the floats\<close>

lemma rohc_bit_numeral:
  "rohc_bit (numeral n) =
     (if bit (numeral n :: byte) 0 then drop_bit 1 (numeral n) XOR 0xE0 else drop_bit 1 (numeral n))"
  "rohc_bit 0 = 0" "rohc_bit 1 = 0xE0"
  by (simp_all add: rohc_bit_def)

lemma rohc_byte_unfold: "rohc_byte c b =
  rohc_bit (rohc_bit (rohc_bit (rohc_bit (rohc_bit (rohc_bit (rohc_bit (rohc_bit (c XOR b))))))))"
  by (simp add: rohc_byte_def eval_nat_numeral)

lemmas rohc_eval = checksum_byte_def rohc_def rohc_byte_unfold rohc_bit_numeral

lemmas double_eval = lit_2_3_def div_double_def mul_double_def of_int_double_def round53_def
  int_gt_double_def int_of_double_def bit_length.simps Let_def

lemma threshold_2560: "skip_frames n 2560 \<longleftrightarrow> 5888 < n"
  by (simp add: skip_frames_def double_eval)

lemmas find_eval = find_bytes_def rfind_bytes_def offsets_def occurs_at_def upt_rec

lemma ck1: "checksum_byte [0x41, 0x42, 0xFF, 0xD9] = [0x3E]"
  by (simp add: rohc_eval)

section \<open>Facts about the byte-string operations\<close>

lemma find_Some_occurs:
  "List.find (occurs_at sub xs) is = Some i \<Longrightarrow> occurs_at sub xs i"
  by (auto simp: find_Some_iff)

lemma find_bytes_range: "find_bytes xs sub = - 1 \<or> (\<exists>p. find_bytes xs sub = int p \<and> occurs_at sub xs p)"
  by (auto simp: find_bytes_def split: option.splits dest: find_Some_occurs)

lemma rfind_bytes_range: "rfind_bytes xs sub = - 1 \<or> (\<exists>p. rfind_bytes xs sub = int p \<and> occurs_at sub xs p)"
  by (auto simp: rfind_bytes_def split: option.splits dest: find_Some_occurs)

lemma header_search_range:
  "header_search sp buf = - 1 \<or> (\<exists>p. header_search sp buf = int p \<and> occurs_at ETVR_HEADER buf p)"
  using find_bytes_range [of buf ETVR_HEADER] rfind_bytes_range [of buf ETVR_HEADER]
  by (auto simp: header_search_def)

lemma occurs_at_offsets: "occurs_at sub xs i \<Longrightarrow> i \<in> set (offsets sub xs)"
  by (auto simp: occurs_at_def offsets_def)

lemma find_first:
  "sorted_wrt (<) is \<Longrightarrow> p \<in> set is \<Longrightarrow> P p \<Longrightarrow> \<forall>i<p. \<not> P i \<Longrightarrow> List.find P is = Some p"
proof (induction "is")
  case Nil then show ?case by simp
next
  case (Cons a as)
  show ?case
  proof (cases "a = p")
    case True with Cons.prems show ?thesis by simp
  next
    case False
    with Cons.prems have "p \<in> set as" by simp
    with Cons.prems have "a < p" by auto
    with Cons.prems have "\<not> P a" by simp
    moreover have "List.find P as = Some p"
      using Cons.IH Cons.prems \<open>p \<in> set as\<close> by simp
    ultimately show ?thesis by simp
  qed
qed

lemma find_last:
  "sorted_wrt (>) is \<Longrightarrow> p \<in> set is \<Longrightarrow> P p \<Longrightarrow> \<forall>i>p. \<not> P i \<Longrightarrow> List.find P is = Some (p::nat)"
proof (induction "is")
  case Nil then show ?case by simp
next
  case (Cons a as)
  show ?case
  proof (cases "a = p")
    case True with Cons.prems show ?thesis by simp
  next
    case False
    with Cons.prems have "p \<in> set as" by simp
    with Cons.prems have "p < a" by auto
    with Cons.prems have "\<not> P a" by simp
    moreover have "List.find P as = Some p"
      using Cons.IH Cons.prems \<open>p \<in> set as\<close> by simp
    ultimately show ?thesis by simp
  qed
qed

lemma find_bytes_first:
  assumes "occurs_at sub xs p" "\<forall>i<p. \<not> occurs_at sub xs i"
  shows "find_bytes xs sub = int p"
proof -
  have "List.find (occurs_at sub xs) (offsets sub xs) = Some p"
  proof (rule find_first)
    show "sorted_wrt (<) (offsets sub xs)" by (simp add: offsets_def)
    show "p \<in> set (offsets sub xs)" using assms(1) by (rule occurs_at_offsets)
  qed (use assms in auto)
  then show ?thesis by (simp add: find_bytes_def)
qed

lemma rfind_bytes_last:
  assumes "occurs_at sub xs p" "\<forall>i>p. \<not> occurs_at sub xs i"
  shows "rfind_bytes xs sub = int p"
proof -
  have "sorted_wrt (>) (rev (offsets sub xs))"
    by (simp add: offsets_def sorted_wrt_rev)
  then have "List.find (occurs_at sub xs) (rev (offsets sub xs)) = Some p"
  proof (rule find_last)
    show "p \<in> set (rev (offsets sub xs))" using assms(1) by (simp add: occurs_at_offsets)
  qed (use assms in auto)
  then show ?thesis by (simp add: rfind_bytes_def)
qed

lemma find_bytes_least:
  "find_bytes xs sub = int p \<Longrightarrow> occurs_at sub xs p \<and> (\<forall>i<p. \<not> occurs_at sub xs i)"
  by (auto simp: find_bytes_def find_Some_iff offsets_def occurs_at_def split: option.splits)

lemma find_bytes_none: "find_bytes xs sub = - 1 \<longleftrightarrow> (\<forall>i. \<not> occurs_at sub xs i)"
  by (auto simp: find_bytes_def find_None_iff find_Some_iff dest: occurs_at_offsets split: option.splits)

lemma rfind_bytes_none: "rfind_bytes xs sub = - 1 \<longleftrightarrow> (\<forall>i. \<not> occurs_at sub xs i)"
  by (auto simp: rfind_bytes_def find_None_iff find_Some_iff dest: occurs_at_offsets split: option.splits)

lemma rfind_bytes_greatest:
  assumes "rfind_bytes xs sub = int p"
  shows "occurs_at sub xs p \<and> (\<forall>i>p. \<not> occurs_at sub xs i)"
proof -
  from assms rfind_bytes_range [of xs sub] have occ: "occurs_at sub xs p" by auto
  have "\<not> occurs_at sub xs i" if "p < i" for i
  proof
    assume i: "occurs_at sub xs i"
    let ?n = "Suc (length xs) - length sub"
    let ?S = "{j. occurs_at sub xs j}"
    have fin: "finite ?S" 
      by (rule finite_subset [of _ "{..length xs}"]) (auto simp: occurs_at_def)
    have ne: "?S \<noteq> {}" using i by auto
    have m: "occurs_at sub xs (Max ?S)" using Max_in [OF fin ne] by simp
    have "\<forall>j>Max ?S. \<not> occurs_at sub xs j"
    proof (intro allI impI notI)
      fix j assume "Max ?S < j" "occurs_at sub xs j"
      then have "j \<le> Max ?S" using fin by simp
      with \<open>Max ?S < j\<close> show False by simp
    qed
    with m have "rfind_bytes xs sub = int (Max ?S)" by (intro rfind_bytes_last) auto
    with assms have "p = Max ?S" by simp
    moreover have "i \<le> Max ?S" using fin i by simp
    ultimately show False using that by simp
  qed
  with occ show ?thesis by blast
qed

lemma ETVR_HEADER_length [simp]: "length ETVR_HEADER = 4"
  by (simp add: ETVR_HEADER_def)

lemma from_bytes_little_2 [simp]: "from_bytes_little [lo, hi] = unat lo + 256 * unat hi"
  by (simp add: from_bytes_little_def)

lemma drop_4_6:
  assumes "6 \<le> length xs"
  shows "drop 4 xs = xs ! 4 # xs ! 5 # drop 6 xs"
proof -
  have a: "drop 4 xs = xs ! 4 # drop 5 xs"
    using assms Cons_nth_drop_Suc [of 4 xs] by simp
  have b: "drop 5 xs = xs ! 5 # drop 6 xs"
    using assms Cons_nth_drop_Suc [of 5 xs] by simp
  show ?thesis by (simp add: a b)
qed

lemma slice_4_6: "6 \<le> length xs \<Longrightarrow> slice xs 4 6 = [xs ! 4, xs ! 5]"
  by (simp add: slice_def drop_4_6)

lemma frame_split:
  assumes "8 \<le> e" "e \<le> length xs"
  shows "xs = take 4 xs @ [xs ! 4, xs ! 5] @ slice xs 6 (e - 2) @ drop (e - 2) xs"
proof -
  have "drop 6 xs = take (e - 8) (drop 6 xs) @ drop (e - 8) (drop 6 xs)"
    by (rule append_take_drop_id [symmetric])
  also have "drop (e - 8) (drop 6 xs) = drop (e - 2) xs"
  proof -
    have "e - 8 + 6 = e - 2" using assms by arith
    then show ?thesis by (simp only: drop_drop)
  qed
  finally have d6: "slice xs 6 (e - 2) @ drop (e - 2) xs = drop 6 xs"
    using assms by (simp add: slice_def)
  have "6 \<le> length xs" using assms by simp
  then have "take 4 xs @ [xs ! 4, xs ! 5] @ slice xs 6 (e - 2) @ drop (e - 2) xs
      = take 4 xs @ drop 4 xs"
    by (simp only: d6 drop_4_6 append_Cons append_Nil)
  then show ?thesis by simp
qed

lemma get_next_jpeg_frame_unfold:
  assumes "rx1 conn = Some r1" "buffer c @ take 2048 r1 = acc" "6 \<le> length acc"
    "header_search (sp_max c) acc = int p" "6 \<le> length (drop p acc)"
    "in_waiting conn = Some w" "e = from_bytes_little (slice (drop p acc) 4 6) + 8"
  shows "get_next_jpeg_frame conn c =
    (if e \<le> w then
       (case rx2 conn of
          None \<Rightarrow> (Inl Exception, c\<lparr>events := events c @ [SerialRead], buffer := drop p acc\<rparr>)
        | Some r2 \<Rightarrow>
            check_frame e (length (drop p acc @ take w r2))
              (c\<lparr>buffer := drop p acc @ take w r2,
                  events := events c @ [SerialRead, SerialRead]\<rparr>))
     else check_frame e (length (drop p acc))
            (c\<lparr>events := events c @ [SerialRead], buffer := drop p acc\<rparr>))"
  using assms
  by (simp add: get_next_jpeg_frame_def serial_read_def Let_def ETVR_HEADER_LEN_def ac_simps
      split: option.splits)

lemma frame_facts:
  assumes "get_next_jpeg_frame conn c = (Inr (Some jpeg), c')"
  shows "\<exists>r1 p rx b e.
     rx1 conn = Some r1
     \<and> (rx = take 2048 r1
        \<or> (\<exists>w r2. in_waiting conn = Some w \<and> rx2 conn = Some r2 \<and> rx = take 2048 r1 @ take w r2))
     \<and> header_search (sp_max c) (buffer c @ take 2048 r1) = int p
     \<and> p + 6 \<le> length (buffer c @ take 2048 r1)
     \<and> b = drop p (buffer c @ rx)
     \<and> e = from_bytes_little (slice b 4 6) + 8
     \<and> e \<le> length b
     \<and> slice b (e - 4) (e - 2) = [0xFF, 0xD9]
     \<and> jpeg = slice b 6 (e - 2)
     \<and> buffer c' = drop (e - 2) b"
proof -
  from assms obtain r1 where r1: "rx1 conn = Some r1"
    by (auto simp: get_next_jpeg_frame_def serial_read_def split: option.splits)
  define acc where "acc = buffer c @ take 2048 r1"
  have acc: "buffer c @ take 2048 r1 = acc" by (simp add: acc_def)
  from assms r1 have len: "6 \<le> length acc" and beg: "header_search (sp_max c) acc \<noteq> - 1"
    by (auto simp: get_next_jpeg_frame_def serial_read_def acc_def ETVR_HEADER_LEN_def Let_def
        split: if_splits)
  from beg header_search_range [of "sp_max c" acc]
  obtain p where p: "header_search (sp_max c) acc = int p" and occ: "occurs_at ETVR_HEADER acc p"
    by auto
  from assms r1 len p have len2: "6 \<le> length (drop p acc)"
    by (auto simp: get_next_jpeg_frame_def serial_read_def acc_def ETVR_HEADER_LEN_def Let_def
        split: if_splits)
  define e where "e = from_bytes_little (slice (drop p acc) 4 6) + 8"
  note e = e_def
  from assms r1 len p len2 obtain w where w: "in_waiting conn = Some w"
    by (auto simp: get_next_jpeg_frame_def serial_read_def acc_def ETVR_HEADER_LEN_def Let_def
        split: if_splits option.splits)
  note unf = get_next_jpeg_frame_unfold [OF r1 acc len p len2 w e]
  have "\<exists>c3 extra. (extra = [] \<or> (\<exists>r2. rx2 conn = Some r2 \<and> extra = take w r2))
          \<and> buffer c3 = drop p acc @ extra
          \<and> check_frame e (length (buffer c3)) c3 = (Inr (Some jpeg), c')"
  proof (cases "e \<le> w")
    case True
    with assms unf obtain r2 where r2: "rx2 conn = Some r2"
      by (cases "rx2 conn") auto
    let ?c3 = "c\<lparr>buffer := drop p acc @ take w r2, events := events c @ [SerialRead, SerialRead]\<rparr>"
    from True assms unf r2
    have "check_frame e (length (buffer ?c3)) ?c3 = (Inr (Some jpeg), c')" by simp
    with r2 show ?thesis
      by (intro exI [of _ ?c3] exI [of _ "take w r2"]) simp
  next
    case False
    let ?c3 = "c\<lparr>events := events c @ [SerialRead], buffer := drop p acc\<rparr>"
    from False assms unf
    have "check_frame e (length (buffer ?c3)) ?c3 = (Inr (Some jpeg), c')" by simp
    then show ?thesis
      by (intro exI [of _ ?c3] exI [of _ "[]"]) simp
  qed
  then obtain c3 extra where
    extra: "extra = [] \<or> (\<exists>r2. rx2 conn = Some r2 \<and> extra = take w r2)"
    and b3: "buffer c3 = drop p acc @ extra"
    and chk: "check_frame e (length (buffer c3)) c3 = (Inr (Some jpeg), c')"
    by blast
  define b where "b = drop p acc @ extra"
  from chk b3 have fr: "e \<le> length b" "slice b (e - 4) (e - 2) = [0xFF, 0xD9]"
    "jpeg = slice b 6 (e - 2)" "buffer c' = drop (e - 2) b"
    by (auto simp: check_frame_def Let_def b_def ETVR_HEADER_LEN_def split: if_splits)
  have pl: "p \<le> length acc" using len2 by simp
  then have bd: "b = drop p (buffer c @ take 2048 r1 @ extra)"
    by (simp add: b_def acc_def)
  have es: "e = from_bytes_little (slice b 4 6) + 8"
    using len2 by (simp add: e_def b_def slice_def)
  have "p + 6 \<le> length acc" using len2 by simp
  then have p6: "p + 6 \<le> length (buffer c @ take 2048 r1)" by (simp only: acc_def)
  have rx: "take 2048 r1 @ extra = take 2048 r1
        \<or> (\<exists>w r2. in_waiting conn = Some w \<and> rx2 conn = Some r2
             \<and> take 2048 r1 @ extra = take 2048 r1 @ take w r2)"
    using extra w by auto
  have hs: "header_search (sp_max c) (buffer c @ take 2048 r1) = int p"
    using p by (simp only: acc_def)
  have bd': "b = drop p (buffer c @ (take 2048 r1 @ extra))" using bd by simp
  show ?thesis
    apply (rule exI [of _ r1], rule exI [of _ p], rule exI [of _ "take 2048 r1 @ extra"])
    apply (rule exI [of _ b], rule exI [of _ e])
    apply (intro conjI)
    apply (rule r1 rx hs p6 bd' es fr)+
    done
qed

lemma slice_length: "j \<le> length xs \<Longrightarrow> length (slice xs i j) = j - i"
  by (simp add: slice_def)

lemma slice_nth: "i + k < j \<Longrightarrow> j \<le> length xs \<Longrightarrow> slice xs i j ! k = xs ! (i + k)"
  by (simp add: slice_def)

lemma slice_slice:
  "j \<le> length xs \<Longrightarrow> i + b \<le> j \<Longrightarrow> slice (slice xs i j) a b = slice xs (i + a) (i + b)"
proof -
  assume j: "j \<le> length xs" and b: "i + b \<le> j"
  have "slice (slice xs i j) a b = take (b - a) (take (j - i - a) (drop a (drop i xs)))"
    by (simp only: slice_def drop_take)
  also have "\<dots> = take (b - a) (drop (i + a) xs)"
    using b by (simp add: min_absorb1 add.commute)
  finally show ?thesis by (simp add: slice_def)
qed

lemma payload_length:
  assumes e: "e = from_bytes_little (slice b 4 6) + 8" and len: "e \<le> length b"
    and eoi: "slice b (e - 4) (e - 2) = [0xFF, 0xD9]"
  shows "2 \<le> e - 8"
proof (rule ccontr)
  assume "\<not> 2 \<le> e - 8"
  with e have "e = 8 \<or> e = 9" by auto
  moreover have l6: "6 \<le> length b" using e len by simp
  ultimately consider "e = 8" | "e = 9" by blast
  then show False
  proof cases
    case 1
    with eoi have "slice b 4 6 = [0xFF, 0xD9]" by simp
    with e 1 show False by simp
  next
    case 2
    with eoi have s: "slice b 5 7 = [0xFF, 0xD9]" by simp
    have "slice b 5 7 ! 0 = b ! 5" using len 2 by (simp add: slice_def)
    with s have "b ! 5 = 0xFF" by simp
    with e 2 l6 show False by (simp add: slice_4_6)
  qed
qed

lemma frame_shape:
  assumes e: "e = from_bytes_little (slice b 4 6) + 8" and len: "e \<le> length b"
    and eoi: "slice b (e - 4) (e - 2) = [0xFF, 0xD9]"
  defines "jpeg \<equiv> slice b 6 (e - 2)"
  shows "b = take 4 b @ [b ! 4, b ! 5] @ jpeg @ drop (e - 2) b"
    and "length jpeg = from_bytes_little [b ! 4, b ! 5]"
    and "2 \<le> length jpeg"
    and "slice jpeg (length jpeg - 2) (length jpeg) = [0xFF, 0xD9]"
    and "2 \<le> length (drop (e - 2) b)"
proof -
  have e8: "8 \<le> e" using e by simp
  have l6: "6 \<le> length b" using e len by simp
  show "b = take 4 b @ [b ! 4, b ! 5] @ jpeg @ drop (e - 2) b"
    unfolding jpeg_def using e8 len by (rule frame_split)
  have lj: "length jpeg = e - 8"
    using len e8 by (simp add: jpeg_def slice_def)
  then show "length jpeg = from_bytes_little [b ! 4, b ! 5]"
    using e l6 by (simp add: slice_4_6)
  have p2: "2 \<le> e - 8" using e len eoi by (rule payload_length)
  then show "2 \<le> length jpeg" using lj by simp
  have "slice jpeg (e - 8 - 2) (e - 8) = slice b (6 + (e - 8 - 2)) (6 + (e - 8))"
    unfolding jpeg_def using len p2 by (intro slice_slice) auto
  moreover have "6 + (e - 8 - 2) = e - 4" "6 + (e - 8) = e - 2" using p2 by auto
  ultimately show "slice jpeg (length jpeg - 2) (length jpeg) = [0xFF, 0xD9]"
    using eoi lj by simp
  show "2 \<le> length (drop (e - 2) b)" using len e8 by simp
qed

lemma drop_append_le: "p \<le> length xs \<Longrightarrow> drop p (xs @ ys) = drop p xs @ ys"
  by simp

section \<open>The framer yields only framed payloads\<close>

text \<open>
  Claim C2. Whenever \<open>get_next_jpeg_frame\<close> returns a payload, whatever the accumulator
  held and whatever the port delivered, the accumulator extended by the bytes read in this
  call contains the four-byte magic header, then the two-byte little-endian length field,
  then the returned payload, whose length is the value of that field and whose last two
  bytes, the terminator position computed from the length field, are the JPEG end-of-image
  marker \<open>FF D9\<close>; the two bytes of the checksum slot follow and stay buffered.
\<close>

theorem yielded_frame_is_framed:
  assumes "get_next_jpeg_frame conn c = (Inr (Some jpeg), c')"
  shows "\<exists>r1 rx pre lo hi.
     rx1 conn = Some r1
     \<and> (rx = take 2048 r1
        \<or> (\<exists>w r2. in_waiting conn = Some w \<and> rx2 conn = Some r2 \<and> rx = take 2048 r1 @ take w r2))
     \<and> buffer c @ rx = pre @ ETVR_HEADER @ [lo, hi] @ jpeg @ buffer c'
     \<and> length jpeg = from_bytes_little [lo, hi]
     \<and> 2 \<le> length jpeg
     \<and> slice jpeg (length jpeg - 2) (length jpeg) = [0xFF, 0xD9]
     \<and> 2 \<le> length (buffer c')"
proof -
  from frame_facts [OF assms] obtain r1 p rx b e where
    r1: "rx1 conn = Some r1"
    and rx: "rx = take 2048 r1
        \<or> (\<exists>w r2. in_waiting conn = Some w \<and> rx2 conn = Some r2 \<and> rx = take 2048 r1 @ take w r2)"
    and hs: "header_search (sp_max c) (buffer c @ take 2048 r1) = int p"
    and p6: "p + 6 \<le> length (buffer c @ take 2048 r1)"
    and b: "b = drop p (buffer c @ rx)"
    and e: "e = from_bytes_little (slice b 4 6) + 8"
    and len: "e \<le> length b"
    and eoi: "slice b (e - 4) (e - 2) = [0xFF, 0xD9]"
    and jpeg: "jpeg = slice b 6 (e - 2)"
    and rest: "buffer c' = drop (e - 2) b"
    by blast
  let ?acc = "buffer c @ take 2048 r1"
  from rx obtain extra where ex: "buffer c @ rx = ?acc @ extra" by auto
  from hs header_search_range [of "sp_max c" ?acc]
  have "occurs_at ETVR_HEADER ?acc p" by auto
  then have h: "take 4 (drop p ?acc) = ETVR_HEADER" by (simp add: occurs_at_def)
  have "p \<le> length ?acc" using p6 by simp
  then have "drop p (?acc @ extra) = drop p ?acc @ extra" by (rule drop_append_le)
  then have "b = drop p ?acc @ extra" unfolding b ex .
  moreover have "4 \<le> length (drop p ?acc)" using p6 by simp
  ultimately have hb: "take 4 b = ETVR_HEADER" using h by simp
  define pre where "pre = take p (buffer c @ rx)"
  define lo where "lo = b ! 4"
  define hi where "hi = b ! 5"
  have whole: "buffer c @ rx = pre @ b"
    unfolding b pre_def by (simp only: append_take_drop_id)
  note sh = frame_shape [OF e len eoi, folded jpeg lo_def hi_def]
  have bb: "b = ETVR_HEADER @ [lo, hi] @ jpeg @ buffer c'"
    using sh(1) by (simp only: hb rest)
  have dec: "buffer c @ rx = pre @ ETVR_HEADER @ [lo, hi] @ jpeg @ buffer c'"
    using whole unfolding bb .
  have tail: "2 \<le> length (buffer c')" using sh(5) by (simp only: rest)
  show ?thesis
    apply (rule exI [of _ r1], rule exI [of _ rx], rule exI [of _ pre])
    apply (rule exI [of _ lo], rule exI [of _ hi])
    apply (intro conjI)
          apply (rule r1 rx dec sh(2) sh(3) sh(4) tail)+
    done
qed

lemma one_frame_io_result:
  "get_next_jpeg_frame one_frame_io (init None [])
   = (Inr (Some [0x41, 0x42, 0xFF, 0xD9]),
      (init None [])\<lparr>buffer := [0x3E, 0], events := [SerialRead]\<rparr>)"
  by (simp add: one_frame_io_def init_def get_next_jpeg_frame_def serial_read_def
      header_search_def threshold_2560 find_eval ETVR_HEADER_def ETVR_HEADER_LEN_def
      check_frame_def slice_def ck1 from_bytes_little_def)

theorem yielded_frame_is_framed_witness:
  "\<exists>jpeg c'. get_next_jpeg_frame one_frame_io (init None []) = (Inr (Some jpeg), c')
     \<and> (\<exists>r1 rx pre lo hi.
     rx1 one_frame_io = Some r1
     \<and> (rx = take 2048 r1
        \<or> (\<exists>w r2. in_waiting one_frame_io = Some w \<and> rx2 one_frame_io = Some r2
              \<and> rx = take 2048 r1 @ take w r2))
     \<and> buffer (init None []) @ rx = pre @ ETVR_HEADER @ [lo, hi] @ jpeg @ buffer c'
     \<and> length jpeg = from_bytes_little [lo, hi]
     \<and> 2 \<le> length jpeg
     \<and> slice jpeg (length jpeg - 2) (length jpeg) = [0xFF, 0xD9]
     \<and> 2 \<le> length (buffer c'))"
  apply (rule exI, rule exI, rule conjI)
   apply (rule one_frame_io_result)
  apply (rule yielded_frame_is_framed [OF one_frame_io_result])
  done
section \<open>Facts about the framer\<close>

lemma check_frame_sp_max:
  "sp_max (snd (check_frame e n c)) = sp_max c
   \<or> (sp_max c < e \<and> sp_max (snd (check_frame e n c)) = e)"
  by (simp add: check_frame_def Let_def)

lemma check_frame_status [simp]:
  "camera_status (snd (check_frame e n c)) = camera_status c"
  by (simp add: check_frame_def Let_def)

lemma get_next_jpeg_frame_sp_max:
  "sp_max (snd (get_next_jpeg_frame conn c)) = sp_max c
   \<or> (\<exists>lo hi. sp_max c < from_bytes_little [lo, hi] + ETVR_HEADER_LEN + 2
        \<and> sp_max (snd (get_next_jpeg_frame conn c)) = from_bytes_little [lo, hi] + ETVR_HEADER_LEN + 2)"
proof (cases "rx1 conn")
  case None
  then show ?thesis by (simp add: get_next_jpeg_frame_def serial_read_def)
next
  case (Some r1)
  define acc where "acc = buffer c @ take 2048 r1"
  have acc: "buffer c @ take 2048 r1 = acc" by (simp add: acc_def)
  show ?thesis
  proof (cases "6 \<le> length acc \<and> header_search (sp_max c) acc \<noteq> - 1")
    case False
    with Some show ?thesis
      by (auto simp: get_next_jpeg_frame_def serial_read_def acc ETVR_HEADER_LEN_def Let_def)
  next
    case True
    with header_search_range [of "sp_max c" acc]
    obtain p where p: "header_search (sp_max c) acc = int p" by auto
    show ?thesis
    proof (cases "6 \<le> length (drop p acc)")
      case False
      with Some True p show ?thesis
        by (auto simp: get_next_jpeg_frame_def serial_read_def acc ETVR_HEADER_LEN_def Let_def)
    next
      case l6: True
      show ?thesis
      proof (cases "in_waiting conn")
        case None
        with Some True p l6 show ?thesis
          by (auto simp: get_next_jpeg_frame_def serial_read_def acc ETVR_HEADER_LEN_def Let_def)
      next
        case w: (Some w)
        define e where "e = from_bytes_little (slice (drop p acc) 4 6) + 8"
        have es: "e = from_bytes_little [drop p acc ! 4, drop p acc ! 5] + ETVR_HEADER_LEN + 2"
          using l6 by (simp add: e_def slice_4_6 ETVR_HEADER_LEN_def)
        note unf = get_next_jpeg_frame_unfold [OF Some acc _ p l6 w e_def]
        have "sp_max (snd (get_next_jpeg_frame conn c)) = sp_max c
              \<or> (sp_max c < e \<and> sp_max (snd (get_next_jpeg_frame conn c)) = e)"
        proof (cases "e \<le> w")
          case False
          then show ?thesis
            using unf True
              check_frame_sp_max [of e "length (drop p acc)"
                "c\<lparr>events := events c @ [SerialRead], buffer := drop p acc\<rparr>"]
            by simp
        next
          case ew: True
          show ?thesis
          proof (cases "rx2 conn")
            case None
            with ew unf True show ?thesis by simp
          next
            case (Some r2)
            with ew unf True 
              check_frame_sp_max [of e "length (drop p acc @ take w r2)"
                "c\<lparr>buffer := drop p acc @ take w r2,
                  events := events c @ [SerialRead, SerialRead]\<rparr>"]
            show ?thesis by simp
          qed
        qed
        then show ?thesis unfolding es by blast
      qed
    qed
  qed
qed

lemma get_next_jpeg_frame_mono: "sp_max c \<le> sp_max (snd (get_next_jpeg_frame conn c))"
  using get_next_jpeg_frame_sp_max [of conn c] by auto

lemma get_next_jpeg_frames_mono: "sp_max c \<le> sp_max (get_next_jpeg_frames conns c)"
proof (induction conns arbitrary: c)
  case Nil
  show ?case by simp
next
  case (Cons conn conns)
  have "sp_max c \<le> sp_max (snd (get_next_jpeg_frame conn c))"
    by (rule get_next_jpeg_frame_mono)
  also have "\<dots> \<le> sp_max (get_next_jpeg_frames conns (snd (get_next_jpeg_frame conn c)))"
    by (rule Cons.IH)
  finally show ?case by simp
qed

lemma get_next_jpeg_frames_append:
  "get_next_jpeg_frames (xs @ ys) c = get_next_jpeg_frames ys (get_next_jpeg_frames xs c)"
  by (induction xs arbitrary: c) simp_all

text \<open>The header was found at the end of \<open>pre\<close>; what the frame check then sees.\<close>

lemma frame_in_stream:
  assumes r1: "rx1 conn = Some r1" and w: "in_waiting conn = Some w" and r2: "rx2 conn = Some r2"
    and hs: "header_search (sp_max c) (buffer c @ take 2048 r1) = int (length pre)"
    and p6: "length pre + 6 \<le> length (buffer c @ take 2048 r1)"
    and e: "e = from_bytes_little [lo, hi] + 8"
    and full: "buffer c @ take 2048 r1 @ (if e \<le> w then take w r2 else [])
                 = pre @ ETVR_HEADER @ [lo, hi] @ tail"
  shows "\<exists>c3. get_next_jpeg_frame conn c = check_frame e (length (buffer c3)) c3
           \<and> buffer c3 = ETVR_HEADER @ [lo, hi] @ tail
           \<and> sp_max c3 = sp_max c \<and> camera_status c3 = camera_status c
           \<and> camera_output_outgoing c3 = camera_output_outgoing c"
proof -
  define acc where "acc = buffer c @ take 2048 r1"
  define extra where "extra = (if e \<le> w then take w r2 else [])"
  have acc: "buffer c @ take 2048 r1 = acc" by (simp add: acc_def)
  have pl: "length pre \<le> length acc" and l6: "6 \<le> length acc" 
    and l6': "6 \<le> length (drop (length pre) acc)"
    using p6 by (simp_all add: acc_def)
  have "acc @ extra = pre @ ETVR_HEADER @ [lo, hi] @ tail"
    using full by (simp add: acc_def extra_def)
  then have "drop (length pre) (acc @ extra) = ETVR_HEADER @ [lo, hi] @ tail" by simp
  then have b: "drop (length pre) acc @ extra = ETVR_HEADER @ [lo, hi] @ tail"
    using pl by simp
  then have "take 6 (drop (length pre) acc @ extra) = ETVR_HEADER @ [lo, hi]" by simp
  then have t6: "take 6 (drop (length pre) acc) = ETVR_HEADER @ [lo, hi]" using l6' by simp
  have "slice (drop (length pre) acc) 4 6 = slice (take 6 (drop (length pre) acc)) 4 6"
    by (simp add: slice_def drop_take)
  also have "\<dots> = [lo, hi]" by (simp add: t6 slice_def)
  finally have e': "e = from_bytes_little (slice (drop (length pre) acc) 4 6) + 8"
    using e by simp
  note unf = get_next_jpeg_frame_unfold [OF r1 acc l6 hs [unfolded acc] l6' w e']
  show ?thesis
  proof (cases "e \<le> w")
    case True
    let ?c3 = "c\<lparr>buffer := drop (length pre) acc @ take w r2,
                  events := events c @ [SerialRead, SerialRead]\<rparr>"
    have "get_next_jpeg_frame conn c = check_frame e (length (buffer ?c3)) ?c3"
      using unf True r2 by simp
    moreover have "buffer ?c3 = ETVR_HEADER @ [lo, hi] @ tail"
      using b True by (simp add: extra_def)
    ultimately show ?thesis by (intro exI [of _ ?c3]) simp
  next
    case False
    let ?c3 = "c\<lparr>events := events c @ [SerialRead], buffer := drop (length pre) acc\<rparr>"
    have "get_next_jpeg_frame conn c = check_frame e (length (buffer ?c3)) ?c3"
      using unf False by simp
    moreover have "buffer ?c3 = ETVR_HEADER @ [lo, hi] @ tail"
      using b False by (simp add: extra_def)
    ultimately show ?thesis by (intro exI [of _ ?c3]) simp
  qed
qed

text \<open>The frame check on a buffer that holds a whole frame.\<close>

lemma check_frame_whole:
  assumes b: "buffer c = ETVR_HEADER @ [lo, hi] @ body @ [0xFF, 0xD9] @ [ck, nx] @ rest"
    and e: "e = length body + 10"
  shows "check_frame e (length (buffer c)) c =
    (if [ck, nx] \<noteq> [0xFF, 0xA0] \<and> [ck] \<noteq> checksum_byte (body @ [0xFF, 0xD9])
     then (Inr None, c\<lparr>buffer := rest\<rparr>)
     else (Inr (Some (body @ [0xFF, 0xD9])),
           (if sp_max c < e then c\<lparr>sp_max := e\<rparr> else c)\<lparr>buffer := ck # nx # rest\<rparr>))"
proof -
  define h where "h = ETVR_HEADER @ [lo, hi]"
  define jpeg where "jpeg = body @ [0xFF, 0xD9 :: byte]"
  have lh: "length h = 6" by (simp add: h_def)
  have lj: "length jpeg = e - 8" "8 \<le> e" by (simp_all add: jpeg_def e)
  have bh: "buffer c = h @ jpeg @ ck # nx # rest" by (simp add: b h_def jpeg_def)
  have d6: "drop 6 (buffer c) = jpeg @ ck # nx # rest" by (simp add: bh lh)
  have s4: "slice (buffer c) ETVR_HEADER_LEN (e - 2) = jpeg"
    using lj by (simp add: slice_def ETVR_HEADER_LEN_def d6)
  have "drop (e - 8) (drop 6 (buffer c)) = ck # nx # rest"
    using lj by (simp add: d6)
  moreover have "e - 8 + 6 = e - 2" using lj by simp
  ultimately have d2: "drop (e - 2) (buffer c) = ck # nx # rest"
    by (simp only: drop_drop)
  have "drop 2 (drop (e - 2) (buffer c)) = rest" by (simp add: d2)
  moreover have "2 + (e - 2) = e" using lj by simp
  ultimately have d1: "drop e (buffer c) = rest" by (simp only: drop_drop)
  have s2: "slice (buffer c) (e - 2) e = [ck, nx]"
    using lj by (simp add: slice_def d2)
  have s3: "slice (buffer c) (e - 2) (e - 1) = [ck]"
    using lj by (simp add: slice_def d2)
  have "drop (e - 10) (drop 6 (buffer c)) = [0xFF, 0xD9] @ ck # nx # rest"
    by (simp add: d6 jpeg_def e)
  moreover have "e - 10 + 6 = e - 4" by (simp add: e)
  ultimately have "drop (e - 4) (buffer c) = [0xFF, 0xD9] @ ck # nx # rest"
    by (simp only: drop_drop)
  then have s1: "slice (buffer c) (e - 4) (e - 2) = [0xFF, 0xD9]"
    by (simp add: slice_def e)
  have le: "e \<le> length (buffer c)" by (simp add: b e)
  show ?thesis
    unfolding check_frame_def Let_def
    by (simp add: s1 s2 s3 s3 [unfolded One_nat_def] s4 d1 d2 le jpeg_def del: list.inject)
qed

text \<open>The frame check on a buffer that does not yet hold the whole frame.\<close>

lemma check_frame_short:
  "length (buffer c) < e \<Longrightarrow>
   check_frame e (length (buffer c)) c = (Inr None, if sp_max c < e then c\<lparr>sp_max := e\<rparr> else c)"
  by (simp add: check_frame_def)

lemma max_update: "(if sp_max c < e then c\<lparr>sp_max := e\<rparr> else c) = c\<lparr>sp_max := max (sp_max c) e\<rparr>"
  by (simp add: max_def not_less)

lemmas framer_eval = frame_io_def init_def get_next_jpeg_frame_def serial_read_def
  header_search_def threshold_2560 find_eval ETVR_HEADER_def ETVR_HEADER_LEN_def
  check_frame_def slice_def from_bytes_little_def

lemma ck2: "checksum_byte [0x41, 0x42] = [0xBE]"
  by (simp add: rohc_eval)

section \<open>A frame with a wrong checksum is dropped\<close>

text \<open>
  Claim C3, as stated, fails on the code in two ways. A checksum byte \<open>FF\<close> that is not
  the CRC is still accepted when the byte after it is \<open>A0\<close>, because the code tests the
  two bytes \<open>FF A0\<close> as the sentinel. And a frame laid out as the specification has it,
  with a length field that counts the payload without the end-of-image marker, and a wrong
  checksum byte, is not discarded: nothing is returned and the whole buffer is kept.
\<close>

theorem checksum_mismatch_counterexample:
  "checksum_byte [0x41, 0x42, 0xFF, 0xD9] = [0x3E]
   \<and> fst (get_next_jpeg_frame
          (frame_io (ETVR_HEADER @ [4, 0] @ [0x41, 0x42, 0xFF, 0xD9] @ [0xFF] @ [0xA0, 0]))
          (init None [])) = Inr (Some [0x41, 0x42, 0xFF, 0xD9])
   \<and> checksum_byte [0x41, 0x42] = [0xBE]
   \<and> fst (get_next_jpeg_frame
          (frame_io (ETVR_HEADER @ [2, 0] @ [0x41, 0x42] @ [0xFF, 0xD9] @ [0] @ [1, 2, 3]))
          (init None [])) = Inr None
   \<and> buffer (snd (get_next_jpeg_frame
          (frame_io (ETVR_HEADER @ [2, 0] @ [0x41, 0x42] @ [0xFF, 0xD9] @ [0] @ [1, 2, 3]))
          (init None [])))
       = ETVR_HEADER @ [2, 0] @ [0x41, 0x42] @ [0xFF, 0xD9] @ [0] @ [1, 2, 3]"
  by (simp add: framer_eval ck1 ck2)

text \<open>
  Claim C3, amended. The header search finds a frame whose length field counts the payload
  up to and including its JPEG end-of-image marker, and the two bytes after the payload are
  not the sentinel \<open>FF A0\<close>. If the first of them is not the inverted ROHC CRC of the
  payload, the call returns no payload (\<open>False\<close>), the accumulator keeps only what follows
  the frame's end offset (length field plus header length plus two), and \<open>sp_max\<close>,
  \<open>camera_status\<close> and the output queue are as before.
\<close>

theorem checksum_mismatch_rejects:
  assumes r1: "rx1 conn = Some r1" and w: "in_waiting conn = Some w" and r2: "rx2 conn = Some r2"
    and hs: "header_search (sp_max c) (buffer c @ take 2048 r1) = int (length pre)"
    and p6: "length pre + 6 \<le> length (buffer c @ take 2048 r1)"
    and len: "from_bytes_little [lo, hi] = length (body @ [0xFF, 0xD9])"
    and e: "e = from_bytes_little [lo, hi] + ETVR_HEADER_LEN + 2"
    and full: "buffer c @ take 2048 r1 @ (if e \<le> w then take w r2 else [])
                 = pre @ ETVR_HEADER @ [lo, hi] @ body @ [0xFF, 0xD9] @ [ck, nx] @ rest"
    and slot: "[ck, nx] \<noteq> [0xFF, 0xA0]"
    and bad: "[ck] \<noteq> checksum_byte (body @ [0xFF, 0xD9])"
  shows "fst (get_next_jpeg_frame conn c) = Inr None
    \<and> buffer (snd (get_next_jpeg_frame conn c)) = rest
    \<and> length pre + e + length rest
        = length (buffer c @ take 2048 r1 @ (if e \<le> w then take w r2 else []))
    \<and> sp_max (snd (get_next_jpeg_frame conn c)) = sp_max c
    \<and> camera_status (snd (get_next_jpeg_frame conn c)) = camera_status c
    \<and> camera_output_outgoing (snd (get_next_jpeg_frame conn c)) = camera_output_outgoing c"
proof -
  have e8: "e = from_bytes_little [lo, hi] + 8" using e by (simp add: ETVR_HEADER_LEN_def)
  from frame_in_stream [OF r1 w r2 hs p6 e8 full]
  obtain c3 where g: "get_next_jpeg_frame conn c = check_frame e (length (buffer c3)) c3"
    and b: "buffer c3 = ETVR_HEADER @ [lo, hi] @ body @ [0xFF, 0xD9] @ [ck, nx] @ rest"
    and f: "sp_max c3 = sp_max c" "camera_status c3 = camera_status c"
      "camera_output_outgoing c3 = camera_output_outgoing c"
    by blast
  have e10: "e = length body + 10" using e8 len by simp
  have "get_next_jpeg_frame conn c = (Inr None, c3\<lparr>buffer := rest\<rparr>)"
    unfolding g check_frame_whole [OF b e10] using slot bad by simp
  moreover have "length pre + e + length rest
        = length (buffer c @ take 2048 r1 @ (if e \<le> w then take w r2 else []))"
    unfolding full by (simp add: e10)
  ultimately show ?thesis using f by simp
qed


theorem checksum_mismatch_rejects_witness:
  "fst (get_next_jpeg_frame
          (frame_io (ETVR_HEADER @ [4, 0, 0x41, 0x42, 0xFF, 0xD9, 0, 7, 9])) (init None []))
     = Inr None
   \<and> buffer (snd (get_next_jpeg_frame
          (frame_io (ETVR_HEADER @ [4, 0, 0x41, 0x42, 0xFF, 0xD9, 0, 7, 9])) (init None [])))
     = [9]"
  using checksum_mismatch_rejects [where conn = "frame_io (ETVR_HEADER @ [4, 0, 0x41, 0x42, 0xFF, 0xD9, 0, 7, 9])"
      and c = "init None []" and ?r1.0 = "ETVR_HEADER @ [4, 0, 0x41, 0x42, 0xFF, 0xD9, 0, 7, 9]"
      and w = 0 and ?r2.0 = "[]" and pre = "[]" and lo = 4 and hi = 0 and body = "[0x41, 0x42]"
      and e = 12 and ck = 0 and nx = 7 and rest = "[9]"]
  by (simp add: frame_io_def init_def header_search_def threshold_2560 find_eval ETVR_HEADER_def
      ETVR_HEADER_LEN_def ck1)


section \<open>One frame and trailing noise\<close>

text \<open>
  Claim C1, as stated, fails on the code: the end-of-image marker must be the last two of
  the bytes the length field counts, and an accepted frame leaves the accumulator at offset
  \<open>end - 2\<close>, so the checksum byte stays buffered. With a length field that counts the
  payload alone nothing is returned; with one that counts payload and marker, the marker is
  returned with the payload and the checksum byte is kept in front of the noise.
\<close>

theorem frame_payload_counterexample:
  "checksum_byte [0x41, 0x42] = [0xBE]
   \<and> fst (get_next_jpeg_frame
          (frame_io (ETVR_HEADER @ [2, 0] @ [0x41, 0x42] @ [0xFF, 0xD9] @ [0xBE] @ [1, 2, 3]))
          (init None [])) = Inr None
   \<and> checksum_byte [0x41, 0x42, 0xFF, 0xD9] = [0x3E]
   \<and> fst (get_next_jpeg_frame
          (frame_io (ETVR_HEADER @ [4, 0] @ [0x41, 0x42] @ [0xFF, 0xD9] @ [0x3E] @ [1, 2, 3]))
          (init None [])) = Inr (Some [0x41, 0x42, 0xFF, 0xD9])
   \<and> buffer (snd (get_next_jpeg_frame
          (frame_io (ETVR_HEADER @ [4, 0] @ [0x41, 0x42] @ [0xFF, 0xD9] @ [0x3E] @ [1, 2, 3]))
          (init None []))) = [0x3E, 1, 2, 3]"
  by (simp add: framer_eval ck1 ck2)


text \<open>
  Claim C1, amended. The accumulator is one frame and trailing noise: the header, a length
  field that counts the JPEG bytes up to and including their end-of-image marker, those
  bytes, a checksum byte that is their inverted ROHC CRC (or the sentinel), and at least
  one byte of noise; the header occurs nowhere else in what the first read delivered. Then
  one call returns exactly the JPEG bytes the length field counts and leaves the
  accumulator trimmed to \<open>end - 2\<close>: the checksum byte followed by the noise.
\<close>

theorem frame_extracted:
  assumes r1: "rx1 conn = Some r1" and w: "in_waiting conn = Some w" and r2: "rx2 conn = Some r2"
    and hs: "rfind_bytes (buffer c @ take 2048 r1) ETVR_HEADER = 0"
    and p6: "6 \<le> length (buffer c @ take 2048 r1)"
    and len: "from_bytes_little [lo, hi] = length (body @ [0xFF, 0xD9])"
    and e: "e = from_bytes_little [lo, hi] + ETVR_HEADER_LEN + 2"
    and full: "buffer c @ take 2048 r1 @ (if e \<le> w then take w r2 else [])
                 = ETVR_HEADER @ [lo, hi] @ body @ [0xFF, 0xD9] @ [ck] @ nx # noise"
    and ok: "[ck] = checksum_byte (body @ [0xFF, 0xD9]) \<or> [ck, nx] = [0xFF, 0xA0]"
  shows "fst (get_next_jpeg_frame conn c) = Inr (Some (body @ [0xFF, 0xD9]))
    \<and> buffer (snd (get_next_jpeg_frame conn c)) = [ck] @ nx # noise
    \<and> buffer (snd (get_next_jpeg_frame conn c))
        = drop (e - 2) (buffer c @ take 2048 r1 @ (if e \<le> w then take w r2 else []))
    \<and> sp_max (snd (get_next_jpeg_frame conn c)) = max (sp_max c) e"
proof -
  let ?acc = "buffer c @ take 2048 r1"
  have e8: "e = from_bytes_little [lo, hi] + 8" using e by (simp add: ETVR_HEADER_LEN_def)
  from rfind_bytes_greatest [of ?acc ETVR_HEADER 0] hs
  have occ: "occurs_at ETVR_HEADER ?acc 0" by simp
  then have "find_bytes ?acc ETVR_HEADER = int 0" by (intro find_bytes_first) auto
  with hs have hs': "header_search (sp_max c) ?acc = int (length ([] :: byte list))"
    by (simp add: header_search_def)
  have p6': "length ([] :: byte list) + 6 \<le> length ?acc" using p6 by simp
  have full': "?acc @ (if e \<le> w then take w r2 else [])
       = [] @ ETVR_HEADER @ [lo, hi] @ body @ [0xFF, 0xD9] @ [ck, nx] @ noise"
    using full by simp
  from frame_in_stream [OF r1 w r2 hs' p6' e8] full'
  obtain c3 where g: "get_next_jpeg_frame conn c = check_frame e (length (buffer c3)) c3"
    and b: "buffer c3 = ETVR_HEADER @ [lo, hi] @ body @ [0xFF, 0xD9] @ [ck, nx] @ noise"
    and f: "sp_max c3 = sp_max c"
    by auto
  have e10: "e = length body + 10" using e8 len by simp
  have res: "get_next_jpeg_frame conn c
      = (Inr (Some (body @ [0xFF, 0xD9])), c3\<lparr>sp_max := max (sp_max c3) e, buffer := ck # nx # noise\<rparr>)"
    unfolding g check_frame_whole [OF b e10] max_update using ok by auto
  have "drop (e - 2) (?acc @ (if e \<le> w then take w r2 else [])) = ck # nx # noise"
  proof -
    have "length (ETVR_HEADER @ [lo, hi] @ body @ [0xFF, 0xD9]) = e - 2" by (simp add: e10)
    then have "drop (e - 2) ((ETVR_HEADER @ [lo, hi] @ body @ [0xFF, 0xD9]) @ ck # nx # noise)
        = ck # nx # noise"
      by (metis append_eq_conv_conj)
    then show ?thesis using full' by simp
  qed
  with res f show ?thesis by simp
qed


theorem frame_extracted_witness:
  "fst (get_next_jpeg_frame
          (frame_io (ETVR_HEADER @ [4, 0, 0x41, 0x42, 0xFF, 0xD9, 0x3E, 1, 2, 3])) (init None []))
     = Inr (Some [0x41, 0x42, 0xFF, 0xD9])
   \<and> buffer (snd (get_next_jpeg_frame
          (frame_io (ETVR_HEADER @ [4, 0, 0x41, 0x42, 0xFF, 0xD9, 0x3E, 1, 2, 3])) (init None [])))
     = [0x3E, 1, 2, 3]"
  using frame_extracted [where conn = "frame_io (ETVR_HEADER @ [4, 0, 0x41, 0x42, 0xFF, 0xD9, 0x3E, 1, 2, 3])"
      and c = "init None []" and ?r1.0 = "ETVR_HEADER @ [4, 0, 0x41, 0x42, 0xFF, 0xD9, 0x3E, 1, 2, 3]"
      and w = 0 and ?r2.0 = "[]" and lo = 4 and hi = 0 and body = "[0x41, 0x42]"
      and e = 12 and ck = "0x3E" and nx = 1 and noise = "[2, 3]"]
  by (simp add: frame_io_def init_def find_eval ETVR_HEADER_def ETVR_HEADER_LEN_def ck1)


section \<open>The no-checksum sentinel\<close>

text \<open>
  Claim C4, as stated, fails on the code: a slot holding the second header marker
  \<open>FF A1\<close>, or the byte \<open>A1\<close>, is validated as a checksum and the frame rejected, while
  a slot holding the first header marker \<open>FF A0\<close> is accepted without validation.
\<close>

theorem checksum_sentinel_counterexample:
  "checksum_byte [0x41, 0x42, 0xFF, 0xD9] = [0x3E]
   \<and> fst (get_next_jpeg_frame
          (frame_io (ETVR_HEADER @ [4, 0] @ [0x41, 0x42, 0xFF, 0xD9] @ [0xFF, 0xA1] @ [0]))
          (init None [])) = Inr None
   \<and> fst (get_next_jpeg_frame
          (frame_io (ETVR_HEADER @ [4, 0] @ [0x41, 0x42, 0xFF, 0xD9] @ [0xA1, 0] @ [0]))
          (init None [])) = Inr None
   \<and> fst (get_next_jpeg_frame
          (frame_io (ETVR_HEADER @ [4, 0] @ [0x41, 0x42, 0xFF, 0xD9] @ [0xFF, 0xA0] @ [0]))
          (init None [])) = Inr (Some [0x41, 0x42, 0xFF, 0xD9])"
  by (simp add: framer_eval ck1)


text \<open>
  Claim C4, amended. For a frame the header search finds, whose payload ends with the
  end-of-image marker, the checksum is skipped exactly when the two bytes after the payload
  are the first header marker \<open>FF A0\<close> (the first two bytes of \<open>ETVR_HEADER\<close>); with any
  other two bytes the frame is accepted if and only if the first of them is the inverted
  ROHC CRC of the payload.
\<close>

theorem checksum_skipped_on_marker_A:
  assumes r1: "rx1 conn = Some r1" and w: "in_waiting conn = Some w" and r2: "rx2 conn = Some r2"
    and hs: "header_search (sp_max c) (buffer c @ take 2048 r1) = int (length pre)"
    and p6: "length pre + 6 \<le> length (buffer c @ take 2048 r1)"
    and len: "from_bytes_little [lo, hi] = length (body @ [0xFF, 0xD9])"
    and e: "e = from_bytes_little [lo, hi] + ETVR_HEADER_LEN + 2"
    and full: "buffer c @ take 2048 r1 @ (if e \<le> w then take w r2 else [])
                 = pre @ ETVR_HEADER @ [lo, hi] @ body @ [0xFF, 0xD9] @ [ck, nx] @ rest"
  shows "fst (get_next_jpeg_frame conn c) =
     (if [ck, nx] = take 2 ETVR_HEADER then Inr (Some (body @ [0xFF, 0xD9]))
      else if [ck] = checksum_byte (body @ [0xFF, 0xD9]) then Inr (Some (body @ [0xFF, 0xD9]))
      else Inr None)"
proof -
  have e8: "e = from_bytes_little [lo, hi] + 8" using e by (simp add: ETVR_HEADER_LEN_def)
  from frame_in_stream [OF r1 w r2 hs p6 e8 full]
  obtain c3 where g: "get_next_jpeg_frame conn c = check_frame e (length (buffer c3)) c3"
    and b: "buffer c3 = ETVR_HEADER @ [lo, hi] @ body @ [0xFF, 0xD9] @ [ck, nx] @ rest"
    by blast
  have e10: "e = length body + 10" using e8 len by simp
  have h2: "take 2 ETVR_HEADER = [0xFF, 0xA0]" by (simp add: ETVR_HEADER_def)
  show ?thesis
    unfolding g check_frame_whole [OF b e10] h2 by simp
qed

theorem checksum_skipped_on_marker_A_witness:
  "fst (get_next_jpeg_frame
          (frame_io (ETVR_HEADER @ [4, 0, 0x41, 0x42, 0xFF, 0xD9, 0xFF, 0xA0, 0])) (init None []))
     = Inr (Some [0x41, 0x42, 0xFF, 0xD9])"
  using checksum_skipped_on_marker_A [where conn = "frame_io (ETVR_HEADER @ [4, 0, 0x41, 0x42, 0xFF, 0xD9, 0xFF, 0xA0, 0])"
      and c = "init None []" and ?r1.0 = "ETVR_HEADER @ [4, 0, 0x41, 0x42, 0xFF, 0xD9, 0xFF, 0xA0, 0]"
      and w = 0 and ?r2.0 = "[]" and pre = "[]" and lo = 4 and hi = 0 and body = "[0x41, 0x42]"
      and e = 12 and ck = "0xFF" and nx = "0xA0" and rest = "[0]"]
  by (simp add: frame_io_def init_def header_search_def threshold_2560 find_eval ETVR_HEADER_def
      ETVR_HEADER_LEN_def)


section \<open>The largest frame seen\<close>

text \<open>
  Claim C6. Over any sequence of calls of \<open>get_next_jpeg_frame\<close> on one camera,
  \<open>sp_max\<close> never decreases; a call leaves it unchanged or sets it to a frame end offset
  (length field plus header length plus two) greater than its old value; and when the header
  is found but the frame is not yet complete, the call returns no frame, keeps the buffer
  from the header on, and raises \<open>sp_max\<close> to that end offset if it is larger.
\<close>

theorem sp_max_monotone:
  "sp_max (get_next_jpeg_frames conns c) \<le> sp_max (get_next_jpeg_frames (conns @ later) c)
   \<and> (sp_max (snd (get_next_jpeg_frame conn c)) = sp_max c
      \<or> (\<exists>lo hi. sp_max c < from_bytes_little [lo, hi] + ETVR_HEADER_LEN + 2
           \<and> sp_max (snd (get_next_jpeg_frame conn c))
               = from_bytes_little [lo, hi] + ETVR_HEADER_LEN + 2))
   \<and> (rx1 conn = Some r1 \<and> in_waiting conn = Some w \<and> rx2 conn = Some r2
      \<and> header_search (sp_max c) (buffer c @ take 2048 r1) = int (length pre)
      \<and> length pre + 6 \<le> length (buffer c @ take 2048 r1)
      \<and> e = from_bytes_little [lo, hi] + ETVR_HEADER_LEN + 2
      \<and> buffer c @ take 2048 r1 @ (if e \<le> w then take w r2 else [])
           = pre @ ETVR_HEADER @ [lo, hi] @ tail
      \<and> length (ETVR_HEADER @ [lo, hi] @ tail) < e
      \<longrightarrow> fst (get_next_jpeg_frame conn c) = Inr None
          \<and> buffer (snd (get_next_jpeg_frame conn c)) = ETVR_HEADER @ [lo, hi] @ tail
          \<and> sp_max (snd (get_next_jpeg_frame conn c)) = max (sp_max c) e)"
proof (intro conjI impI)
  show "sp_max (get_next_jpeg_frames conns c) \<le> sp_max (get_next_jpeg_frames (conns @ later) c)"
    unfolding get_next_jpeg_frames_append by (rule get_next_jpeg_frames_mono)
  show "sp_max (snd (get_next_jpeg_frame conn c)) = sp_max c
      \<or> (\<exists>lo hi. sp_max c < from_bytes_little [lo, hi] + ETVR_HEADER_LEN + 2
           \<and> sp_max (snd (get_next_jpeg_frame conn c))
               = from_bytes_little [lo, hi] + ETVR_HEADER_LEN + 2)"
    by (rule get_next_jpeg_frame_sp_max)
next
  assume a: "rx1 conn = Some r1 \<and> in_waiting conn = Some w \<and> rx2 conn = Some r2
      \<and> header_search (sp_max c) (buffer c @ take 2048 r1) = int (length pre)
      \<and> length pre + 6 \<le> length (buffer c @ take 2048 r1)
      \<and> e = from_bytes_little [lo, hi] + ETVR_HEADER_LEN + 2
      \<and> buffer c @ take 2048 r1 @ (if e \<le> w then take w r2 else [])
           = pre @ ETVR_HEADER @ [lo, hi] @ tail
      \<and> length (ETVR_HEADER @ [lo, hi] @ tail) < e"
  then have e8: "e = from_bytes_little [lo, hi] + 8" by (simp add: ETVR_HEADER_LEN_def)
  from a frame_in_stream [OF _ _ _ _ _ e8, of conn r1 w r2 c pre tail]
  obtain c3 where g: "get_next_jpeg_frame conn c = check_frame e (length (buffer c3)) c3"
    and b: "buffer c3 = ETVR_HEADER @ [lo, hi] @ tail"
    and f: "sp_max c3 = sp_max c"
    by blast
  from a b have short: "length (buffer c3) < e" by simp
  have r: "get_next_jpeg_frame conn c = (Inr None, c3\<lparr>sp_max := max (sp_max c3) e\<rparr>)"
    unfolding g check_frame_short [OF short] max_update ..
  show "fst (get_next_jpeg_frame conn c) = Inr None" by (simp add: r)
  show "buffer (snd (get_next_jpeg_frame conn c)) = ETVR_HEADER @ [lo, hi] @ tail"
    by (simp add: r b)
  show "sp_max (snd (get_next_jpeg_frame conn c)) = max (sp_max c) e" by (simp add: r f)
qed


theorem sp_max_monotone_witness:
  "fst (get_next_jpeg_frame (frame_io (ETVR_HEADER @ [0x10, 0x27, 1, 2, 3])) (init None []))
     = Inr None
   \<and> buffer (snd (get_next_jpeg_frame (frame_io (ETVR_HEADER @ [0x10, 0x27, 1, 2, 3]))
        (init None []))) = ETVR_HEADER @ [0x10, 0x27, 1, 2, 3]
   \<and> sp_max (snd (get_next_jpeg_frame (frame_io (ETVR_HEADER @ [0x10, 0x27, 1, 2, 3]))
        (init None []))) = 10008"
  using sp_max_monotone [where conn = "frame_io (ETVR_HEADER @ [0x10, 0x27, 1, 2, 3])"
      and c = "init None []" and ?r1.0 = "ETVR_HEADER @ [0x10, 0x27, 1, 2, 3]"
      and w = 0 and ?r2.0 = "[]" and pre = "[]" and lo = "0x10" and hi = "0x27"
      and tail = "[1, 2, 3]" and e = 10008]
  by (simp add: frame_io_def init_def header_search_def threshold_2560 find_eval ETVR_HEADER_def
      ETVR_HEADER_LEN_def)

section \<open>The skip-ahead threshold\<close>

text \<open>The number of bits of a natural number, and what rounding to 53 bits does.\<close>

lemma bit_length_le: "bit_length m \<le> k \<longleftrightarrow> m < 2 ^ k"
proof (induction k arbitrary: m)
  case 0
  show ?case by (simp add: bit_length.simps [of m])
next
  case (Suc k)
  show ?case
  proof (cases "m = 0")
    case True
    then show ?thesis by (simp add: bit_length.simps [of 0])
  next
    case False
    then have "bit_length m = Suc (bit_length (m div 2))" by (simp add: bit_length.simps [of m])
    then have "bit_length m \<le> Suc k \<longleftrightarrow> m div 2 < 2 ^ k" using Suc [of "m div 2"] by simp
    also have "\<dots> \<longleftrightarrow> m < 2 ^ k * 2" by (rule div_less_iff_less_mult) simp
    finally show ?thesis by (simp add: mult.commute)
  qed
qed

lemma round53_exact: "m < 2 ^ 53 \<Longrightarrow> round53 m e = \<lparr>mant = m, expo = e\<rparr>"
  using bit_length_le [of m 53] by (simp add: round53_def)

lemma round53_bounds:
  assumes "\<not> m < 2 ^ 53"
  defines "s \<equiv> bit_length m - 53"
  shows "\<exists>q'. round53 m e = \<lparr>mant = q', expo = e + int s\<rparr>
           \<and> 2 * (q' * 2 ^ s) \<le> 2 * m + 2 ^ s \<and> 2 * m \<le> 2 * (q' * 2 ^ s) + 2 ^ s"
proof -
  have b: "\<not> bit_length m \<le> 53" using assms(1) bit_length_le [of m 53] by simp
  then have s1: "1 \<le> s" by (simp add: s_def)
  define S :: nat where "S = 2 ^ s"
  define h :: nat where "h = 2 ^ (s - 1)"
  define q where "q = m div S"
  define r where "r = m mod S"
  have Sh: "S = 2 * h" using s1 by (simp add: S_def h_def power_eq_if)
  have S0: "0 < S" by (simp add: S_def)
  have m: "m = q * S + r" by (simp add: q_def r_def)
  have r: "r < S" using S0 by (simp add: r_def)
  define q' where "q' = (if r < h then q else if h < r then q + 1 else q + q mod 2)"
  have rd: "round53 m e = \<lparr>mant = q', expo = e + int s\<rparr>"
    using b by (simp add: round53_def Let_def q'_def q_def r_def S_def h_def s_def)
  have q'S: "q' * S = (if r < h then q * S else if h < r then q * S + S
                       else q * S + (q mod 2) * S)"
    by (simp add: q'_def algebra_simps)
  have md: "q mod 2 = 0 \<or> q mod 2 = 1" by arith
  have "2 * (q' * S) \<le> 2 * m + S \<and> 2 * m \<le> 2 * (q' * S) + S"
    using m r Sh md unfolding q'S by (auto split: if_splits)
  then show ?thesis using rd unfolding S_def by blast
qed

lemma lit_2_3_value: "lit_2_3 = \<lparr>mant = 5179139571476070, expo = - 51\<rparr>"
  by (simp add: double_eval)

lemma skip_frames_product:
  assumes "sp < 2 ^ 40"
  shows "skip_frames n sp \<longleftrightarrow> int_gt_double n (round53 (sp * 5179139571476070) (- 51))"
proof -
  have "sp < 2 ^ 53" using assms by (rule less_le_trans) simp
  then have "of_int_double sp = \<lparr>mant = sp, expo = 0\<rparr>"
    by (simp add: of_int_double_def round53_exact)
  then show ?thesis by (simp add: skip_frames_def mul_double_def lit_2_3_value)
qed

lemma skip_frames_exact:
  assumes sp: "sp < 2 ^ 40"
  shows "23 * sp < 10 * n \<Longrightarrow> skip_frames n sp"
    and "10 * n < 23 * sp \<Longrightarrow> \<not> skip_frames n sp"
proof -
  define P where "P = sp * 5179139571476070"
  have sp': "sp < 1099511627776" using sp by simp
  have P10: "10 * P + 4 * sp = 23 * sp * 2251799813685248" by (simp add: P_def)
  have sk: "skip_frames n sp \<longleftrightarrow> int_gt_double n (round53 P (- 51))"
    using skip_frames_product [OF sp] by (simp add: P_def)
  have "(23 * sp < 10 * n \<longrightarrow> skip_frames n sp) \<and> (10 * n < 23 * sp \<longrightarrow> \<not> skip_frames n sp)"
  proof (cases "P < 2 ^ 53")
    case True
    then have "round53 P (- 51) = \<lparr>mant = P, expo = - 51\<rparr>" by (rule round53_exact)
    then have "skip_frames n sp \<longleftrightarrow> P < n * 2251799813685248"
      by (simp add: sk int_gt_double_def)
    then show ?thesis using P10 sp' by auto
  next
    case False
    define s where "s = bit_length P - 53"
    from round53_bounds [OF False, of "- 51"] obtain q' where
      rd: "round53 P (- 51) = \<lparr>mant = q', expo = - 51 + int s\<rparr>"
      and lo: "2 * (q' * 2 ^ s) \<le> 2 * P + 2 ^ s" and hi: "2 * P \<le> 2 * (q' * 2 ^ s) + 2 ^ s"
      unfolding s_def by blast
    have "P < 2 ^ 40 * 2 ^ 53"
      unfolding P_def by (rule mult_strict_mono [OF sp]) simp_all
    then have "P < 2 ^ 93" by simp
    then have "bit_length P \<le> 93" by (simp only: bit_length_le)
    then have s40: "s \<le> 40" by (simp add: s_def)
    define t where "t = 51 - s"
    have st: "s + t = 51" using s40 by (simp add: t_def)
    define S :: nat where "S = 2 ^ s"
    define T :: nat where "T = 2 ^ t"
    have ST: "S * T = 2251799813685248"
    proof -
      have "S * T = 2 ^ (s + t)" by (simp add: S_def T_def power_add)
      then show ?thesis by (simp add: st)
    qed
    have "(2::nat) ^ s \<le> 2 ^ 40" using s40 by (rule power_increasing) simp
    then have S40: "S \<le> 1099511627776" by (simp add: S_def)
    have S0: "0 < S" by (simp add: S_def)
    have neg: "\<not> 0 \<le> - 51 + int s" using s40 by simp
    have nt: "nat (- (- 51 + int s)) = t" using s40 by (simp add: t_def)
    have sk': "skip_frames n sp \<longleftrightarrow> q' < n * T"
      by (simp only: sk rd int_gt_double_def double.simps neg if_False nt T_def)
    have cancel: "q' < n * T \<longleftrightarrow> q' * S < n * 2251799813685248"
    proof -
      have "q' < n * T \<longleftrightarrow> q' * S < (n * T) * S" using S0 by simp
      also have "(n * T) * S = n * (S * T)" by (simp add: mult_ac)
      finally show ?thesis by (simp only: ST)
    qed
    have lo': "2 * (q' * S) \<le> 2 * P + S" and hi': "2 * P \<le> 2 * (q' * S) + S"
      using lo hi by (simp_all add: S_def)
    show ?thesis unfolding sk' cancel using lo' hi' P10 S40 sp' by auto
  qed
  then show "23 * sp < 10 * n \<Longrightarrow> skip_frames n sp"
    and "10 * n < 23 * sp \<Longrightarrow> \<not> skip_frames n sp" by blast+
qed

lemma threshold_2570: "skip_frames n 2570 \<longleftrightarrow> 5911 \<le> n"
  by (simp add: skip_frames_def double_eval) arith

text \<open>At a tie, where ten times the length is 23 times \<open>sp_max\<close>, the rounding of the
  product decides: \<open>2560 * 2.3\<close> is \<open>5888.0\<close> and \<open>2570 * 2.3\<close> is
  \<open>5910.999999999999\<close>.\<close>

lemma skip_frames_ties: "skip_frames 5911 2570 \<and> \<not> skip_frames 5888 2560"
  by (simp add: threshold_2570 threshold_2560)

text \<open>Where the header occurs in a stream of two frames.\<close>

lemma ck3: "checksum_byte [0x43, 0x44, 0xFF, 0xD9] = [0x44]"
  by (simp add: rohc_eval)

lemma occurs_at_nth:
  assumes "occurs_at sub xs i" "j < length sub"
  shows "xs ! (i + j) = sub ! j"
proof -
  from assms(1) have l: "i + length sub \<le> length xs"
    and t: "take (length sub) (drop i xs) = sub" by (simp_all add: occurs_at_def)
  have "sub ! j = take (length sub) (drop i xs) ! j" by (simp only: t)
  also have "\<dots> = drop i xs ! j" using assms(2) by simp
  also have "\<dots> = xs ! (i + j)" using l by simp
  finally show ?thesis by simp
qed

lemma occurs_at_prefix: "occurs_at sub (sub @ xs) 0"
  by (simp add: occurs_at_def)

lemma occurs_at_middle: "occurs_at sub (pre @ sub @ xs) (length pre)"
  by (simp add: occurs_at_def)

lemma length_zeros [simp]: "length (zeros n) = n"
  by (simp add: zeros_def)

lemma length_frames [simp]: "length first_frame = 11" "length last_frame = 12"
  by (simp_all add: first_frame_def last_frame_def ETVR_HEADER_def)

lemma no_header_inside_last_frame:
  assumes "11 + n < i"
  shows "\<not> occurs_at ETVR_HEADER (first_frame @ zeros n @ last_frame) i"
proof
  assume o: "occurs_at ETVR_HEADER (first_frame @ zeros n @ last_frame) i"
  define j where "j = i - (11 + n)"
  have i: "i = 11 + n + j" and j1: "1 \<le> j" using assms by (simp_all add: j_def)
  from o have "i + 4 \<le> 23 + n" by (simp add: occurs_at_def ETVR_HEADER_def)
  then have j8: "j \<le> 8" using i by simp
  have nth: "(first_frame @ zeros n @ last_frame) ! (i + k) = last_frame ! (j + k)" for k
    by (simp add: nth_append i)
  from occurs_at_nth [OF o, of 0] have a: "last_frame ! j = 0xFF"
    using nth [of 0] by (simp add: ETVR_HEADER_def)
  from occurs_at_nth [OF o, of 1] have b: "last_frame ! (j + 1) = 0xA0"
    using nth [of 1] by (simp add: ETVR_HEADER_def)
  from j1 j8 have "j = 1 \<or> j = 2 \<or> j = 3 \<or> j = 4 \<or> j = 5 \<or> j = 6 \<or> j = 7 \<or> j = 8"
    by arith
  then show False using a b by (auto simp: last_frame_def ETVR_HEADER_def)
qed

lemma frame_at:
  assumes r1: "rx1 conn = Some r1" and w: "in_waiting conn = Some w" and r2: "rx2 conn = Some r2"
    and w8: "w < 8"
    and hs: "header_search (sp_max c) (buffer c @ take 2048 r1) = int (length pre)"
    and full: "buffer c @ take 2048 r1
                 = pre @ ETVR_HEADER @ [lo, hi] @ body @ [0xFF, 0xD9] @ [ck, nx] @ rest"
    and len: "from_bytes_little [lo, hi] = length (body @ [0xFF, 0xD9])"
    and ok: "[ck] = checksum_byte (body @ [0xFF, 0xD9]) \<or> [ck, nx] = [0xFF, 0xA0]"
  shows "fst (get_next_jpeg_frame conn c) = Inr (Some (body @ [0xFF, 0xD9]))
    \<and> buffer (snd (get_next_jpeg_frame conn c)) = [ck, nx] @ rest"
proof -
  define e where "e = from_bytes_little [lo, hi] + 8"
  have e8: "e = from_bytes_little [lo, hi] + 8" by (simp add: e_def)
  have ew: "\<not> e \<le> w" using w8 by (simp add: e_def)
  have p6: "length pre + 6 \<le> length (buffer c @ take 2048 r1)"
    unfolding full by (simp add: ETVR_HEADER_def)
  have full': "buffer c @ take 2048 r1 @ (if e \<le> w then take w r2 else [])
       = pre @ ETVR_HEADER @ [lo, hi] @ body @ [0xFF, 0xD9] @ [ck, nx] @ rest"
    using full ew by simp
  from frame_in_stream [OF r1 w r2 hs p6 e8 full']
  obtain c3 where g: "get_next_jpeg_frame conn c = check_frame e (length (buffer c3)) c3"
    and b: "buffer c3 = ETVR_HEADER @ [lo, hi] @ body @ [0xFF, 0xD9] @ [ck, nx] @ rest"
    by blast
  have e10: "e = length body + 10" using e8 len by simp
  have "get_next_jpeg_frame conn c
      = (Inr (Some (body @ [0xFF, 0xD9])),
         (if sp_max c3 < e then c3\<lparr>sp_max := e\<rparr> else c3)\<lparr>buffer := ck # nx # rest\<rparr>)"
    unfolding g check_frame_whole [OF b e10] using ok by auto
  then show ?thesis by simp
qed

lemma two_frames:
  assumes r1: "rx1 conn = Some r1" and w: "in_waiting conn = Some w" and r2: "rx2 conn = Some r2"
    and w8: "w < 8"
    and first: "buffer c @ take 2048 r1
        = ETVR_HEADER @ [lo1, hi1] @ body1 @ [0xFF, 0xD9] @ [ck1, nx1] @ rest1"
    and len1: "from_bytes_little [lo1, hi1] = length (body1 @ [0xFF, 0xD9])"
    and ok1: "[ck1] = checksum_byte (body1 @ [0xFF, 0xD9]) \<or> [ck1, nx1] = [0xFF, 0xA0]"
    and last: "buffer c @ take 2048 r1
        = pre @ ETVR_HEADER @ [lo2, hi2] @ body2 @ [0xFF, 0xD9] @ [ck2, nx2] @ rest2"
    and len2: "from_bytes_little [lo2, hi2] = length (body2 @ [0xFF, 0xD9])"
    and ok2: "[ck2] = checksum_byte (body2 @ [0xFF, 0xD9]) \<or> [ck2, nx2] = [0xFF, 0xA0]"
    and none: "\<forall>i>length pre. \<not> occurs_at ETVR_HEADER (buffer c @ take 2048 r1) i"
  shows "fst (get_next_jpeg_frame conn c)
      = Inr (Some (if skip_frames (length (buffer c @ take 2048 r1)) (sp_max c)
                   then body2 @ [0xFF, 0xD9] else body1 @ [0xFF, 0xD9]))
    \<and> buffer (snd (get_next_jpeg_frame conn c))
      = (if skip_frames (length (buffer c @ take 2048 r1)) (sp_max c)
         then [ck2, nx2] @ rest2 else [ck1, nx1] @ rest1)"
proof (cases "skip_frames (length (buffer c @ take 2048 r1)) (sp_max c)")
  case True
  have "occurs_at ETVR_HEADER (buffer c @ take 2048 r1) (length pre)"
    unfolding last by (rule occurs_at_middle)
  then have "rfind_bytes (buffer c @ take 2048 r1) ETVR_HEADER = int (length pre)"
    using none by (rule rfind_bytes_last)
  then have hs: "header_search (sp_max c) (buffer c @ take 2048 r1) = int (length pre)"
    using True by (simp add: header_search_def)
  from frame_at [OF r1 w r2 w8 hs last len2 ok2] True show ?thesis by simp
next
  case False
  have "occurs_at ETVR_HEADER (buffer c @ take 2048 r1) 0"
    unfolding first by (rule occurs_at_prefix)
  then have "find_bytes (buffer c @ take 2048 r1) ETVR_HEADER = int 0"
    by (rule find_bytes_first) simp
  then have hs: "header_search (sp_max c) (buffer c @ take 2048 r1)
      = int (length ([] :: byte list))"
    using False by (simp add: header_search_def)
  have first': "buffer c @ take 2048 r1
        = [] @ ETVR_HEADER @ [lo1, hi1] @ body1 @ [0xFF, 0xD9] @ [ck1, nx1] @ rest1"
    using first by simp
  from frame_at [OF r1 w r2 w8 hs first' len1 ok1] False show ?thesis by simp
qed

text \<open>A frame the header search finds is returned; the camera that has fallen behind.\<close>

lemma zeros_append [simp]: "zeros a @ zeros b @ xs = zeros (a + b) @ xs"
  by (simp add: zeros_def replicate_add)

lemma frame_taken:
  assumes r1: "rx1 conn = Some r1" and w: "in_waiting conn = Some w" and r2: "rx2 conn = Some r2"
    and hs: "header_search (sp_max c) (buffer c @ take 2048 r1) = int (length pre)"
    and p6: "length pre + 6 \<le> length (buffer c @ take 2048 r1)"
    and e: "e = from_bytes_little [lo, hi] + 8"
    and full: "buffer c @ take 2048 r1 @ (if e \<le> w then take w r2 else [])
                 = pre @ ETVR_HEADER @ [lo, hi] @ body @ [0xFF, 0xD9] @ [ck, nx] @ rest"
    and len: "from_bytes_little [lo, hi] = length (body @ [0xFF, 0xD9])"
    and ok: "[ck] = checksum_byte (body @ [0xFF, 0xD9]) \<or> [ck, nx] = [0xFF, 0xA0]"
  shows "fst (get_next_jpeg_frame conn c) = Inr (Some (body @ [0xFF, 0xD9]))
    \<and> buffer (snd (get_next_jpeg_frame conn c)) = [ck, nx] @ rest
    \<and> sp_max (snd (get_next_jpeg_frame conn c)) = max (sp_max c) e"
proof -
  from frame_in_stream [OF r1 w r2 hs p6 e full]
  obtain c3 where g: "get_next_jpeg_frame conn c = check_frame e (length (buffer c3)) c3"
    and b: "buffer c3 = ETVR_HEADER @ [lo, hi] @ body @ [0xFF, 0xD9] @ [ck, nx] @ rest"
    and f: "sp_max c3 = sp_max c"
    by blast
  have e10: "e = length body + 10" using e len by simp
  have "get_next_jpeg_frame conn c
      = (Inr (Some (body @ [0xFF, 0xD9])),
         c3\<lparr>sp_max := max (sp_max c3) e, buffer := ck # nx # rest\<rparr>)"
    unfolding g check_frame_whole [OF b e10] max_update using ok by auto
  then show ?thesis using f by simp
qed

lemma fallen_behind_state:
  "fst (get_next_jpeg_frame stale_io (init None [])) = Inr (Some (zeros 2560 @ [0xFF, 0xD9]))"
  "buffer fallen_behind = first_frame @ zeros 5888"
  "sp_max fallen_behind = 2570"
proof -
  let ?r1 = "ETVR_HEADER @ [0x02, 0x0A] @ zeros 2042"
  let ?r2 = "zeros 518 @ [0xFF, 0xD9] @ first_frame @ zeros 5888"
  let ?c = "init None []"
  have io: "rx1 stale_io = Some ?r1" "in_waiting stale_io = Some 6419" "rx2 stale_io = Some ?r2"
    by (simp_all add: stale_io_def)
  have c: "buffer ?c = []" "sp_max ?c = 2560" by (simp_all add: init_def)
  have l1: "length ?r1 = 2048" by (simp add: ETVR_HEADER_def)
  have t1: "take 2048 ?r1 = ?r1" using l1 by simp
  have l2: "length ?r2 = 6419" by simp
  have t2: "take 6419 ?r2 = ?r2" using l2 by simp
  have "occurs_at ETVR_HEADER ?r1 0" by (rule occurs_at_prefix)
  then have "find_bytes ?r1 ETVR_HEADER = int 0" by (rule find_bytes_first) simp
  then have hs: "header_search (sp_max ?c) (buffer ?c @ take 2048 ?r1)
      = int (length ([] :: byte list))"
    unfolding c t1 using l1 by (simp add: header_search_def threshold_2560)
  have p6: "length ([] :: byte list) + 6 \<le> length (buffer ?c @ take 2048 ?r1)"
    unfolding c t1 using l1 by simp
  have fb: "from_bytes_little [0x02, 0x0A :: byte] = 2562"
    by (simp add: from_bytes_little_def)
  have e: "(2570 :: nat) = from_bytes_little [0x02, 0x0A] + 8" by (simp add: fb)
  have full: "buffer ?c @ take 2048 ?r1 @ (if (2570 :: nat) \<le> 6419 then take 6419 ?r2 else [])
      = [] @ ETVR_HEADER @ [0x02, 0x0A] @ zeros 2560 @ [0xFF, 0xD9] @ [0xFF, 0xA0]
          @ ([0xFF, 0xA1, 4, 0, 0x41, 0x42, 0xFF, 0xD9, 0x3E] @ zeros 5888)"
    unfolding c t1 t2 by (simp add: first_frame_def ETVR_HEADER_def)
  have len: "from_bytes_little [0x02, 0x0A] = length (zeros 2560 @ [0xFF, 0xD9 :: byte])"
    by (simp add: fb)
  note r = frame_taken [OF io hs p6 e full len, simplified]
  show "fst (get_next_jpeg_frame stale_io (init None [])) = Inr (Some (zeros 2560 @ [0xFF, 0xD9]))"
    using r by simp
  show "buffer fallen_behind = first_frame @ zeros 5888"
    using r by (simp add: fallen_behind_def first_frame_def ETVR_HEADER_def)
  show "sp_max fallen_behind = 2570"
    using r by (simp add: fallen_behind_def c)
qed

lemma stream_frames:
  assumes "buffer c = first_frame @ zeros (Suc n)"
  shows "buffer c @ take 2048 last_frame
     = ETVR_HEADER @ [4, 0] @ [0x41, 0x42] @ [0xFF, 0xD9] @ [0x3E, 0] @ (zeros n @ last_frame)"
  "buffer c @ take 2048 last_frame
     = (first_frame @ zeros (Suc n)) @ ETVR_HEADER @ [4, 0] @ [0x43, 0x44] @ [0xFF, 0xD9]
         @ [0x44, 0] @ []"
  "\<forall>i>length (first_frame @ zeros (Suc n)).
      \<not> occurs_at ETVR_HEADER (buffer c @ take 2048 last_frame) i"
  "length (buffer c @ take 2048 last_frame) = 24 + n"
proof -
  have t: "take 2048 last_frame = last_frame" by simp
  show "buffer c @ take 2048 last_frame
     = ETVR_HEADER @ [4, 0] @ [0x41, 0x42] @ [0xFF, 0xD9] @ [0x3E, 0] @ (zeros n @ last_frame)"
    unfolding t assms by (simp add: first_frame_def zeros_def)
  show "buffer c @ take 2048 last_frame
     = (first_frame @ zeros (Suc n)) @ ETVR_HEADER @ [4, 0] @ [0x43, 0x44] @ [0xFF, 0xD9]
         @ [0x44, 0] @ []"
    unfolding t assms by (simp add: last_frame_def)
  show "\<forall>i>length (first_frame @ zeros (Suc n)).
      \<not> occurs_at ETVR_HEADER (buffer c @ take 2048 last_frame) i"
    unfolding t assms using no_header_inside_last_frame [of "Suc n"] by simp
  show "length (buffer c @ take 2048 last_frame) = 24 + n"
    unfolding t assms by simp
qed

lemma last_frame_io:
  "rx1 (frame_io last_frame) = Some last_frame"
  "in_waiting (frame_io last_frame) = Some 0"
  "rx2 (frame_io last_frame) = Some []"
  by (simp_all add: frame_io_def)


text \<open>What the header search returns.\<close>

lemma header_search_found:
  assumes "header_search sp buf = int p"
  shows "occurs_at ETVR_HEADER buf p
    \<and> (\<forall>i. occurs_at ETVR_HEADER buf i \<longrightarrow>
          (if skip_frames (length buf) sp then i \<le> p else p \<le> i))"
proof (cases "skip_frames (length buf) sp")
  case True
  with assms have "rfind_bytes buf ETVR_HEADER = int p" by (simp add: header_search_def)
  from rfind_bytes_greatest [OF this] True show ?thesis by (auto simp: not_less [symmetric])
next
  case False
  with assms have "find_bytes buf ETVR_HEADER = int p" by (simp add: header_search_def)
  from find_bytes_least [OF this] False show ?thesis by (auto simp: not_less [symmetric])
qed

lemma header_search_none:
  "header_search sp buf = - 1 \<longleftrightarrow> (\<forall>i. \<not> occurs_at ETVR_HEADER buf i)"
  by (simp add: header_search_def find_bytes_none rfind_bytes_none)



section \<open>Searching from the end\<close>

text \<open>
  Claim C5, as stated, fails on the code at a tie. The code compares the accumulator
  length with the double-precision product \<open>sp_max * 2.3\<close>. A camera that has just
  returned a frame of 2562 bytes has \<open>sp_max = 2570\<close> and still holds the 5899 bytes
  read after it; the next read brings the accumulator to 5911 bytes, which is exactly 2.3
  times \<open>sp_max\<close> and does not exceed it. The product is \<open>5910.999999999999\<close>, so the
  search is from the end: the header is taken at its last occurrence, offset 5899, not at
  its first, offset 0, and the call returns the last frame.
\<close>

theorem skip_ahead_tie_counterexample:
  "fst (get_next_jpeg_frame stale_io (init None [])) = Inr (Some (zeros 2560 @ [0xFF, 0xD9]))
   \<and> buffer fallen_behind = first_frame @ zeros 5888
   \<and> sp_max fallen_behind = 2570
   \<and> 10 * length (buffer fallen_behind @ take 2048 last_frame) = 23 * sp_max fallen_behind
   \<and> find_bytes (buffer fallen_behind @ take 2048 last_frame) ETVR_HEADER = 0
   \<and> rfind_bytes (buffer fallen_behind @ take 2048 last_frame) ETVR_HEADER = 5899
   \<and> header_search (sp_max fallen_behind) (buffer fallen_behind @ take 2048 last_frame) = 5899
   \<and> fst (get_next_jpeg_frame (frame_io last_frame) fallen_behind)
       = Inr (Some [0x43, 0x44, 0xFF, 0xD9])
   \<and> buffer (snd (get_next_jpeg_frame (frame_io last_frame) fallen_behind)) = [0x44, 0]"
proof -
  let ?acc = "buffer fallen_behind @ take 2048 last_frame"
  have b: "buffer fallen_behind = first_frame @ zeros (Suc 5887)"
    by (simp add: fallen_behind_state)
  have s: "skip_frames 5911 2570" by (simp add: threshold_2570)
  have w8: "0 < (8 :: nat)" by simp
  note f = stream_frames [OF b]
  have l: "length ?acc = 5911" using f(4) by simp
  note a = two_frames [OF last_frame_io w8 f(1) _ _ f(2) _ _ f(3), unfolded l fallen_behind_state(3)]
  have "occurs_at ETVR_HEADER ?acc 0" unfolding f(1) by (rule occurs_at_prefix)
  then have "find_bytes ?acc ETVR_HEADER = int 0" by (rule find_bytes_first) simp
  then have fi: "find_bytes ?acc ETVR_HEADER = 0" by simp
  have "occurs_at ETVR_HEADER ?acc (length (first_frame @ zeros (Suc 5887)))"
    unfolding f(2) by (rule occurs_at_middle)
  then have "rfind_bytes ?acc ETVR_HEADER = int (length (first_frame @ zeros (Suc 5887)))"
    using f(3) by (rule rfind_bytes_last)
  then have rf: "rfind_bytes ?acc ETVR_HEADER = 5899" by simp
  have hs: "header_search (sp_max fallen_behind) ?acc = 5899"
    unfolding header_search_def l fallen_behind_state(3) using rf s by simp
  have res: "fst (get_next_jpeg_frame (frame_io last_frame) fallen_behind)
       = Inr (Some [0x43, 0x44, 0xFF, 0xD9])
    \<and> buffer (snd (get_next_jpeg_frame (frame_io last_frame) fallen_behind)) = [0x44, 0]"
    using a s by (simp add: ck1 ck3)
  have ten: "10 * length ?acc = 23 * sp_max fallen_behind"
    unfolding l fallen_behind_state(3) by simp
  from fallen_behind_state ten fi rf hs res show ?thesis by (intro conjI) simp_all
qed


text \<open>
  Claim C5, amended. The header search of a call takes the last occurrence of the header
  in the accumulator exactly when the accumulator length after the first read exceeds the
  double-precision product \<open>sp_max * 2.3\<close> that the code computes, and the first
  occurrence otherwise; it fails only when the header does not occur. For \<open>sp_max\<close> below
  \<open>2 ^ 40\<close>, a length strictly above 2.3 times \<open>sp_max\<close> in exact arithmetic searches
  from the end and a length strictly below it searches from the start. When the accumulator
  holds a whole frame at its start and a whole frame at the last occurrence of the header,
  and fewer than eight more bytes are waiting, the call returns the last frame and drops
  everything before it in the first case, and returns the first frame and keeps what
  follows it in the second.
\<close>

theorem skip_ahead_threshold:
  "(header_search sp buf = - 1 \<longleftrightarrow> (\<forall>i. \<not> occurs_at ETVR_HEADER buf i))
   \<and> (header_search sp buf = int p
      \<longrightarrow> occurs_at ETVR_HEADER buf p
          \<and> (\<forall>i. occurs_at ETVR_HEADER buf i \<longrightarrow>
                (if skip_frames (length buf) sp then i \<le> p else p \<le> i)))
   \<and> (sp < 2 ^ 40 \<and> 23 * sp < 10 * length buf \<longrightarrow> skip_frames (length buf) sp)
   \<and> (sp < 2 ^ 40 \<and> 10 * length buf < 23 * sp \<longrightarrow> \<not> skip_frames (length buf) sp)
   \<and> (rx1 conn = Some r1 \<and> in_waiting conn = Some w \<and> rx2 conn = Some r2 \<and> w < 8
      \<and> buffer c @ take 2048 r1
          = ETVR_HEADER @ [lo1, hi1] @ body1 @ [0xFF, 0xD9] @ [ck1, nx1] @ rest1
      \<and> from_bytes_little [lo1, hi1] = length (body1 @ [0xFF, 0xD9])
      \<and> ([ck1] = checksum_byte (body1 @ [0xFF, 0xD9]) \<or> [ck1, nx1] = [0xFF, 0xA0])
      \<and> buffer c @ take 2048 r1
          = pre @ ETVR_HEADER @ [lo2, hi2] @ body2 @ [0xFF, 0xD9] @ [ck2, nx2] @ rest2
      \<and> from_bytes_little [lo2, hi2] = length (body2 @ [0xFF, 0xD9])
      \<and> ([ck2] = checksum_byte (body2 @ [0xFF, 0xD9]) \<or> [ck2, nx2] = [0xFF, 0xA0])
      \<and> (\<forall>i>length pre. \<not> occurs_at ETVR_HEADER (buffer c @ take 2048 r1) i)
      \<longrightarrow> fst (get_next_jpeg_frame conn c)
            = Inr (Some (if skip_frames (length (buffer c @ take 2048 r1)) (sp_max c)
                         then body2 @ [0xFF, 0xD9] else body1 @ [0xFF, 0xD9]))
          \<and> buffer (snd (get_next_jpeg_frame conn c))
            = (if skip_frames (length (buffer c @ take 2048 r1)) (sp_max c)
               then [ck2, nx2] @ rest2 else [ck1, nx1] @ rest1))"
proof (intro conjI impI)
  show "header_search sp buf = - 1 \<longleftrightarrow> (\<forall>i. \<not> occurs_at ETVR_HEADER buf i)"
    by (rule header_search_none)
  show "occurs_at ETVR_HEADER buf p" if "header_search sp buf = int p"
    using header_search_found [OF that] by blast
  show "\<forall>i. occurs_at ETVR_HEADER buf i \<longrightarrow>
          (if skip_frames (length buf) sp then i \<le> p else p \<le> i)"
    if "header_search sp buf = int p"
    using header_search_found [OF that] by blast
  show "skip_frames (length buf) sp" if "sp < 2 ^ 40 \<and> 23 * sp < 10 * length buf"
    using that skip_frames_exact(1) by blast
  show "\<not> skip_frames (length buf) sp" if "sp < 2 ^ 40 \<and> 10 * length buf < 23 * sp"
    using that skip_frames_exact(2) by blast
next
  assume a: "rx1 conn = Some r1 \<and> in_waiting conn = Some w \<and> rx2 conn = Some r2 \<and> w < 8
      \<and> buffer c @ take 2048 r1
          = ETVR_HEADER @ [lo1, hi1] @ body1 @ [0xFF, 0xD9] @ [ck1, nx1] @ rest1
      \<and> from_bytes_little [lo1, hi1] = length (body1 @ [0xFF, 0xD9])
      \<and> ([ck1] = checksum_byte (body1 @ [0xFF, 0xD9]) \<or> [ck1, nx1] = [0xFF, 0xA0])
      \<and> buffer c @ take 2048 r1
          = pre @ ETVR_HEADER @ [lo2, hi2] @ body2 @ [0xFF, 0xD9] @ [ck2, nx2] @ rest2
      \<and> from_bytes_little [lo2, hi2] = length (body2 @ [0xFF, 0xD9])
      \<and> ([ck2] = checksum_byte (body2 @ [0xFF, 0xD9]) \<or> [ck2, nx2] = [0xFF, 0xA0])
      \<and> (\<forall>i>length pre. \<not> occurs_at ETVR_HEADER (buffer c @ take 2048 r1) i)"
  then have r1: "rx1 conn = Some r1" and w: "in_waiting conn = Some w"
    and r2: "rx2 conn = Some r2" and w8: "w < 8"
    and first: "buffer c @ take 2048 r1
        = ETVR_HEADER @ [lo1, hi1] @ body1 @ [0xFF, 0xD9] @ [ck1, nx1] @ rest1"
    and len1: "from_bytes_little [lo1, hi1] = length (body1 @ [0xFF, 0xD9])"
    and ok1: "[ck1] = checksum_byte (body1 @ [0xFF, 0xD9]) \<or> [ck1, nx1] = [0xFF, 0xA0]"
    and last: "buffer c @ take 2048 r1
        = pre @ ETVR_HEADER @ [lo2, hi2] @ body2 @ [0xFF, 0xD9] @ [ck2, nx2] @ rest2"
    and len2: "from_bytes_little [lo2, hi2] = length (body2 @ [0xFF, 0xD9])"
    and ok2: "[ck2] = checksum_byte (body2 @ [0xFF, 0xD9]) \<or> [ck2, nx2] = [0xFF, 0xA0]"
    and none: "\<forall>i>length pre. \<not> occurs_at ETVR_HEADER (buffer c @ take 2048 r1) i"
    by blast+
  note t = two_frames [OF r1 w r2 w8 first len1 ok1 last len2 ok2 none]
  show "fst (get_next_jpeg_frame conn c)
            = Inr (Some (if skip_frames (length (buffer c @ take 2048 r1)) (sp_max c)
                         then body2 @ [0xFF, 0xD9] else body1 @ [0xFF, 0xD9]))"
    by (rule t [THEN conjunct1])
  show "buffer (snd (get_next_jpeg_frame conn c))
            = (if skip_frames (length (buffer c @ take 2048 r1)) (sp_max c)
               then [ck2, nx2] @ rest2 else [ck1, nx1] @ rest1)"
    by (rule t [THEN conjunct2])
qed

theorem skip_ahead_threshold_witness:
  "occurs_at ETVR_HEADER (buffer fallen_behind @ take 2048 last_frame) 5899
   \<and> skip_frames 5923 2560
   \<and> \<not> skip_frames 123 2560
   \<and> fst (get_next_jpeg_frame (frame_io last_frame) (backlog 2560 5900))
     = Inr (Some [0x43, 0x44, 0xFF, 0xD9])
   \<and> buffer (snd (get_next_jpeg_frame (frame_io last_frame) (backlog 2560 5900))) = [0x44, 0]
   \<and> fst (get_next_jpeg_frame (frame_io last_frame) (backlog 2560 100))
     = Inr (Some [0x41, 0x42, 0xFF, 0xD9])
   \<and> buffer (snd (get_next_jpeg_frame (frame_io last_frame) (backlog 2560 100)))
     = [0x3E, 0] @ zeros 99 @ last_frame"
proof -
  let ?acc = "buffer fallen_behind @ take 2048 last_frame"
  have b: "buffer fallen_behind = first_frame @ zeros (Suc 5887)"
    by (simp add: fallen_behind_state)
  note f = stream_frames [OF b]
  have l: "length ?acc = 5911" using f(4) by simp
  have "occurs_at ETVR_HEADER ?acc (length (first_frame @ zeros (Suc 5887)))"
    unfolding f(2) by (rule occurs_at_middle)
  then have "rfind_bytes ?acc ETVR_HEADER = int (length (first_frame @ zeros (Suc 5887)))"
    using f(3) by (rule rfind_bytes_last)
  then have "rfind_bytes ?acc ETVR_HEADER = int 5899" by simp
  then have hs: "header_search 2570 ?acc = int 5899"
    unfolding header_search_def l by (simp add: threshold_2570)
  note G = skip_ahead_threshold [where sp = 2570 and buf = ?acc and p = 5899,
      THEN conjunct2, THEN conjunct1, THEN mp, OF hs]
  have g1: "occurs_at ETVR_HEADER ?acc 5899" by (rule G [THEN conjunct1])
  have lb: "length (zeros 5923) = 5923" "length (zeros 123) = 123" by simp_all
  have a2: "(2560 :: nat) < 2 ^ 40 \<and> 23 * 2560 < 10 * length (zeros 5923)" by simp
  have a3: "(2560 :: nat) < 2 ^ 40 \<and> 10 * length (zeros 123) < 23 * 2560" by simp
  have g2: "skip_frames 5923 2560"
    by (rule skip_ahead_threshold [where sp = 2560 and buf = "zeros 5923",
      THEN conjunct2, THEN conjunct2, THEN conjunct1, THEN mp, OF a2, unfolded lb])
  have g3: "\<not> skip_frames 123 2560"
    by (rule skip_ahead_threshold [where sp = 2560 and buf = "zeros 123",
      THEN conjunct2, THEN conjunct2, THEN conjunct2, THEN conjunct1, THEN mp, OF a3,
      unfolded lb])
  have b1: "buffer (backlog 2560 5900) = first_frame @ zeros (Suc 5899)"
    and b2: "buffer (backlog 2560 100) = first_frame @ zeros (Suc 99)"
    and sp: "sp_max (backlog 2560 5900) = 2560" "sp_max (backlog 2560 100) = 2560"
    by (simp_all add: backlog_def init_def)
  note s1 = stream_frames [OF b1] and s2 = stream_frames [OF b2]
  have ok1: "[0x3E] = checksum_byte ([0x41, 0x42] @ [0xFF, 0xD9])
      \<or> [0x3E, 0] = [0xFF, 0xA0 :: byte]" by (simp add: ck1)
  have ok2: "[0x44] = checksum_byte ([0x43, 0x44] @ [0xFF, 0xD9])
      \<or> [0x44, 0] = [0xFF, 0xA0 :: byte]" by (simp add: ck3)
  have ln1: "from_bytes_little [4, 0 :: byte] = length ([0x41, 0x42] @ [0xFF, 0xD9 :: byte])"
    and ln2: "from_bytes_little [4, 0 :: byte] = length ([0x43, 0x44] @ [0xFF, 0xD9 :: byte])"
    by (simp_all add: from_bytes_little_def)
  have w8: "(0 :: nat) < 8" by simp
  note T = skip_ahead_threshold [THEN conjunct2, THEN conjunct2, THEN conjunct2,
      THEN conjunct2, THEN mp]
  note H1 = conjI [OF last_frame_io(1) conjI [OF last_frame_io(2) conjI [OF last_frame_io(3)
      conjI [OF w8 conjI [OF s1(1) conjI [OF ln1 conjI [OF ok1 conjI [OF s1(2)
      conjI [OF ln2 conjI [OF ok2 s1(3)]]]]]]]]]]
  note H2 = conjI [OF last_frame_io(1) conjI [OF last_frame_io(2) conjI [OF last_frame_io(3)
      conjI [OF w8 conjI [OF s2(1) conjI [OF ln1 conjI [OF ok1 conjI [OF s2(2)
      conjI [OF ln2 conjI [OF ok2 s2(3)]]]]]]]]]]
  note h1 = T [OF H1, unfolded s1(4) sp]
  note h2 = T [OF H2, unfolded s2(4) sp]
  have n: "24 + 5899 = (5923 :: nat)" "24 + 99 = (123 :: nat)" by simp_all
  from g1 g2 g3 h1 [unfolded n] h2 [unfolded n] show ?thesis by simp
qed

section \<open>What the steps of the capture loop leave unchanged\<close>

lemmas clamp_eval = clamp_max_res_def resize_def MAX_RESOLUTION_def double_eval

lemma contains_Nil [simp]: "\<not> contains (x # xs) []"
  by (simp add: contains_def find_bytes_def offsets_def)

lemma get_serial_camera_picture_None:
  "serial_connection c = None \<Longrightarrow> get_serial_camera_picture w should_push c = c"
  by (simp add: get_serial_camera_picture_def)

lemma other_events_append [simp]:
  "other_events (xs @ ys) = other_events xs @ other_events ys"
  by (simp add: other_events_def)

lemma other_events_opened [simp]: "other_events [VideoCaptureOpened cap] = []"
  by (simp add: other_events_def is_video_capture_opened_def)

lemma tty_iteration:
  assumes "tty_source w" "serial_connection c = None"
  shows "serial_connection (snd (run_iteration w c)) = None
    \<and> buffer (snd (run_iteration w c)) = buffer c
    \<and> sp_max (snd (run_iteration w c)) = sp_max c
    \<and> camera_output_outgoing (snd (run_iteration w c)) = camera_output_outgoing c
    \<and> other_events (events (snd (run_iteration w c))) = other_events (events c)"
proof -
  from assms(1) obtain src where src: "capture_source (config w) = Some src"
    "contains ''/dev/tty'' (str src)" "\<not> contains ''COM'' (str src)"
    by (auto simp: tty_source_def split: option.splits)
  then have ne: "src \<noteq> Name []" by (auto simp: str_def)
  show ?thesis
    using src ne assms(2)
    by (simp add: run_iteration_def open_capture_source_def Let_def
        get_serial_camera_picture_None split: prod.splits)
qed

lemma tty_run:
  "list_all tty_source ws \<Longrightarrow> serial_connection c = None \<Longrightarrow>
   serial_connection (run ws c) = None
    \<and> buffer (run ws c) = buffer c
    \<and> sp_max (run ws c) = sp_max c
    \<and> camera_output_outgoing (run ws c) = camera_output_outgoing c
    \<and> other_events (events (run ws c)) = other_events (events c)"
proof (induction ws arbitrary: c)
  case Nil
  then show ?case by simp
next
  case (Cons w ws)
  then have w: "tty_source w" and ws: "list_all tty_source ws" by simp_all
  note it = tty_iteration [OF w Cons.prems(2)]
  obtain r c' where r: "run_iteration w c = (r, c')" by (cases "run_iteration w c")
  with it have c': "serial_connection c' = None" "buffer c' = buffer c" "sp_max c' = sp_max c"
    "camera_output_outgoing c' = camera_output_outgoing c"
    "other_events (events c') = other_events (events c)"
    by simp_all
  show ?case
  proof (cases r)
    case True
    with r c' show ?thesis by simp
  next
    case False
    with r have "run (w # ws) c = run ws c'" by simp
    with Cons.IH [OF ws c'(1)] c' show ?thesis by simp
  qed
qed

lemma check_frame_keeps:
  "snd (check_frame e n c) =
     c\<lparr>buffer := buffer (snd (check_frame e n c)), sp_max := sp_max (snd (check_frame e n c))\<rparr>"
  by (simp add: check_frame_def Let_def)

lemma camera_swap: "c\<lparr>events := ev, buffer := b\<rparr> = c\<lparr>buffer := b, events := ev\<rparr>"
  by simp

text \<open>Every state \<open>get_next_jpeg_frame\<close> can end in.\<close>

lemma get_next_jpeg_frame_state:
  assumes same: "P c"
    and upd: "\<And>b ev. P (c\<lparr>buffer := b, events := events c @ ev\<rparr>)"
    and chk: "\<And>e n b ev. P (snd (check_frame e n (c\<lparr>buffer := b, events := events c @ ev\<rparr>)))"
  shows "P (snd (get_next_jpeg_frame conn c))"
proof (cases "rx1 conn")
  case None
  then show ?thesis using same by (simp add: get_next_jpeg_frame_def serial_read_def)
next
  case (Some r1)
  define acc where "acc = buffer c @ take 2048 r1"
  have acc: "buffer c @ take 2048 r1 = acc" by (simp add: acc_def)
  show ?thesis
  proof (cases "6 \<le> length acc \<and> header_search (sp_max c) acc \<noteq> - 1")
    case False
    with Some upd [where b = acc and ev = "[SerialRead]"] show ?thesis
      by (auto simp: get_next_jpeg_frame_def serial_read_def acc ETVR_HEADER_LEN_def Let_def
          camera_swap)
  next
    case True
    with header_search_range [of "sp_max c" acc]
    obtain p where p: "header_search (sp_max c) acc = int p" by auto
    note swap = camera_swap
    show ?thesis
    proof (cases "6 \<le> length (drop p acc)")
      case False
      with Some True p upd [where b = "drop p acc" and ev = "[SerialRead]"] show ?thesis
        by (auto simp: get_next_jpeg_frame_def serial_read_def acc ETVR_HEADER_LEN_def Let_def
          camera_swap)
    next
      case l6: True
      show ?thesis
      proof (cases "in_waiting conn")
        case None
        with Some True p l6 upd [where b = "drop p acc" and ev = "[SerialRead]"] show ?thesis
          by (auto simp: get_next_jpeg_frame_def serial_read_def acc ETVR_HEADER_LEN_def Let_def
          camera_swap)
      next
        case w: (Some w)
        define e where "e = from_bytes_little (slice (drop p acc) 4 6) + 8"
        note unf = get_next_jpeg_frame_unfold [OF Some acc _ p l6 w e_def]
        show ?thesis
        proof (cases "e \<le> w")
          case False
          then show ?thesis
            using unf True chk [where e = e and n = "length (drop p acc)" and b = "drop p acc" and ev = "[SerialRead]"]
            by (simp add: swap)
        next
          case ew: True
          show ?thesis
          proof (cases "rx2 conn")
            case None
            with ew unf True upd [where b = "drop p acc" and ev = "[SerialRead]"] show ?thesis
              by (simp add: swap)
          next
            case (Some r2)
            with ew unf True
              chk [where e = e and n = "length (drop p acc @ take w r2)"
                and b = "drop p acc @ take w r2" and ev = "[SerialRead, SerialRead]"]
            show ?thesis by simp
          qed
        qed
      qed
    qed
  qed
qed

lemma get_next_jpeg_frame_keeps:
  "snd (get_next_jpeg_frame conn c) =
     c\<lparr>buffer := buffer (snd (get_next_jpeg_frame conn c)),
       sp_max := sp_max (snd (get_next_jpeg_frame conn c)),
       events := events (snd (get_next_jpeg_frame conn c))\<rparr>"
proof (rule get_next_jpeg_frame_state)
  show "c = c\<lparr>buffer := buffer c, sp_max := sp_max c, events := events c\<rparr>" by simp
next
  fix b ev
  show "c\<lparr>buffer := b, events := events c @ ev\<rparr> =
    c\<lparr>buffer := buffer (c\<lparr>buffer := b, events := events c @ ev\<rparr>),
      sp_max := sp_max (c\<lparr>buffer := b, events := events c @ ev\<rparr>),
      events := events (c\<lparr>buffer := b, events := events c @ ev\<rparr>)\<rparr>"
    by simp
next
  fix e n b ev
  let ?d = "c\<lparr>buffer := b, events := events c @ ev\<rparr>"
  show "snd (check_frame e n ?d) =
    c\<lparr>buffer := buffer (snd (check_frame e n ?d)), sp_max := sp_max (snd (check_frame e n ?d)),
      events := events (snd (check_frame e n ?d))\<rparr>"
    by (subst check_frame_keeps) (simp add: check_frame_def Let_def)
qed

lemma get_next_jpeg_frame_fields [simp]:
  "camera_status (snd (get_next_jpeg_frame conn c)) = camera_status c"
  "cv2_camera (snd (get_next_jpeg_frame conn c)) = cv2_camera c"
  "serial_connection (snd (get_next_jpeg_frame conn c)) = serial_connection c"
  "current_capture_source (snd (get_next_jpeg_frame conn c)) = current_capture_source c"
  "camera_output_outgoing (snd (get_next_jpeg_frame conn c)) = camera_output_outgoing c"
  "FRAME_SIZE (snd (get_next_jpeg_frame conn c)) = FRAME_SIZE c"
  by (subst get_next_jpeg_frame_keeps, simp)+

lemma get_next_jpeg_frame_events:
  "\<exists>evs. events (snd (get_next_jpeg_frame conn c)) = events c @ evs"
proof (rule get_next_jpeg_frame_state)
  show "\<exists>evs. events c = events c @ evs" by simp
next
  fix b ev
  show "\<exists>evs. events (c\<lparr>buffer := b, events := events c @ ev\<rparr>) = events c @ evs" by simp
next
  fix e n b ev
  show "\<exists>evs. events (snd (check_frame e n (c\<lparr>buffer := b, events := events c @ ev\<rparr>)))
      = events c @ evs"
    by (subst check_frame_keeps) simp
qed

lemma serial_close_fields [simp]:
  "cv2_camera (serial_close c) = cv2_camera c"
  "current_capture_source (serial_close c) = current_capture_source c"
  "camera_output_outgoing (serial_close c) = camera_output_outgoing c"
  "camera_status (serial_close c) = camera_status c"
  by (simp_all add: serial_close_def split: option.splits)

lemma serial_close_events: "\<exists>evs. events (serial_close c) = events c @ evs"
  by (simp add: serial_close_def split: option.splits)

lemma dunder_del_fields [simp]:
  "cv2_camera (dunder_del c) = cv2_camera c"
  "current_capture_source (dunder_del c) = current_capture_source c"
  "camera_output_outgoing (dunder_del c) = camera_output_outgoing c"
  "camera_status (dunder_del c) = camera_status c"
  by (simp_all add: dunder_del_def)

lemma dunder_del_events: "\<exists>evs. events (dunder_del c) = events c @ evs"
  using serial_close_events [of c] by (simp add: dunder_del_def)

lemma push_image_to_queue_fields [simp]:
  "cv2_camera (snd (push_image_to_queue img c)) = cv2_camera c"
  "current_capture_source (snd (push_image_to_queue img c)) = current_capture_source c"
  "serial_connection (snd (push_image_to_queue img c)) = serial_connection c"
  "events (snd (push_image_to_queue img c)) = events c"
  by (simp_all add: push_image_to_queue_def split: sum.splits)

lemma discard_serial_buffer_fields [simp]:
  "cv2_camera (snd (discard_serial_buffer w c)) = cv2_camera c"
  "current_capture_source (snd (discard_serial_buffer w c)) = current_capture_source c"
  "serial_connection (snd (discard_serial_buffer w c)) = serial_connection c"
  "events (snd (discard_serial_buffer w c)) = events c"
  by (simp_all add: discard_serial_buffer_def split: option.splits)

lemma get_cv2_camera_picture_fields [simp]:
  "cv2_camera (get_cv2_camera_picture w sp c) = cv2_camera c"
  "current_capture_source (get_cv2_camera_picture w sp c) = current_capture_source c"
proof -
  show "cv2_camera (get_cv2_camera_picture w sp c) = cv2_camera c"
    by (cases "push_image_to_queue (the (the (cv2_read w))) (c\<lparr>events := events c @ [VideoCaptureRead], FRAME_SIZE := the (the (cv2_read w))\<rparr>)")
      (auto simp: get_cv2_camera_picture_def Let_def push_image_to_queue_def
        split: option.splits sum.splits)
  show "current_capture_source (get_cv2_camera_picture w sp c) = current_capture_source c"
    by (auto simp: get_cv2_camera_picture_def Let_def push_image_to_queue_def
        split: option.splits sum.splits)
qed

lemma get_cv2_camera_picture_events:
  "\<exists>evs. events (get_cv2_camera_picture w sp c) = events c @ evs"
  by (auto simp: get_cv2_camera_picture_def Let_def push_image_to_queue_def
      split: option.splits sum.splits)

lemma serial_try_fields [simp]:
  "cv2_camera (snd (serial_try w sp c)) = cv2_camera c"
  "current_capture_source (snd (serial_try w sp c)) = current_capture_source c"
proof -
  obtain r c1 where g: "get_next_jpeg_frame (serial w) c = (r, c1)"
    by (cases "get_next_jpeg_frame (serial w) c")
  then have c1: "c1 = snd (get_next_jpeg_frame (serial w) c)" by simp
  have f: "cv2_camera c1 = cv2_camera c" "current_capture_source c1 = current_capture_source c"
    unfolding c1 by simp_all
  obtain r2 c2 where ps: "push_image_to_queue (the (imdecode w)) c1 = (r2, c2)"
    by (cases "push_image_to_queue (the (imdecode w)) c1")
  then have c2: "c2 = snd (push_image_to_queue (the (imdecode w)) c1)" by simp
  have f2: "cv2_camera c2 = cv2_camera c" "current_capture_source c2 = current_capture_source c"
    unfolding c2 using f by simp_all
  show "cv2_camera (snd (serial_try w sp c)) = cv2_camera c"
    using f f2 ps by (auto simp: serial_try_def g split: option.splits sum.splits)
  show "current_capture_source (snd (serial_try w sp c)) = current_capture_source c"
    using f f2 ps by (auto simp: serial_try_def g split: option.splits sum.splits)
qed

lemma serial_try_events: "\<exists>evs. events (snd (serial_try w sp c)) = events c @ evs"
proof -
  obtain r c1 where g: "get_next_jpeg_frame (serial w) c = (r, c1)"
    by (cases "get_next_jpeg_frame (serial w) c")
  then have c1: "c1 = snd (get_next_jpeg_frame (serial w) c)" by simp
  from get_next_jpeg_frame_events [of "serial w" c]
  obtain evs where f: "events c1 = events c @ evs" unfolding c1 by blast
  obtain r2 c2 where ps: "push_image_to_queue (the (imdecode w)) c1 = (r2, c2)"
    by (cases "push_image_to_queue (the (imdecode w)) c1")
  then have c2: "c2 = snd (push_image_to_queue (the (imdecode w)) c1)" by simp
  have f2: "events c2 = events c @ evs" unfolding c2 using f by simp
  show ?thesis
    using f f2 ps by (auto simp: serial_try_def g split: option.splits sum.splits)
qed

lemma get_serial_camera_picture_fields [simp]:
  "cv2_camera (get_serial_camera_picture w sp c) = cv2_camera c"
  "current_capture_source (get_serial_camera_picture w sp c) = current_capture_source c"
proof -
  obtain r c1 where t: "serial_try w sp c = (r, c1)" by (cases "serial_try w sp c")
  then have c1: "c1 = snd (serial_try w sp c)" by simp
  have f: "cv2_camera c1 = cv2_camera c" "current_capture_source c1 = current_capture_source c"
    unfolding c1 by simp_all
  show "cv2_camera (get_serial_camera_picture w sp c) = cv2_camera c"
    using f by (simp add: get_serial_camera_picture_def t split: sum.splits)
  show "current_capture_source (get_serial_camera_picture w sp c) = current_capture_source c"
    using f by (simp add: get_serial_camera_picture_def t split: sum.splits)
qed

lemma get_serial_camera_picture_events:
  "\<exists>evs. events (get_serial_camera_picture w sp c) = events c @ evs"
proof -
  obtain r c1 where t: "serial_try w sp c = (r, c1)" by (cases "serial_try w sp c")
  then have c1: "c1 = snd (serial_try w sp c)" by simp
  from serial_try_events [of w sp c] obtain evs where f: "events c1 = events c @ evs"
    unfolding c1 by blast
  from serial_close_events [of c1] obtain evs' where f': "events (serial_close c1) = events c1 @ evs'"
    by blast
  show ?thesis
    using f f' by (simp add: get_serial_camera_picture_def t split: sum.splits)
qed

lemma start_serial_connection_fields [simp]:
  "cv2_camera (start_serial_connection w prt c) = cv2_camera c"
  "current_capture_source (start_serial_connection w prt c) = current_capture_source c"
  by (simp_all add: start_serial_connection_def Let_def serial_close_def split: option.splits)

lemma start_serial_connection_events:
  "\<exists>evs. events (start_serial_connection w prt c) = events c @ StartSerialConnection prt # evs"
  by (simp add: start_serial_connection_def Let_def serial_close_def split: option.splits)

lemma contains_eval: "contains ''COM'' ''COM3''" "\<not> contains ''COM'' ''/dev/ttyUSB0''"
  "contains ''/dev/tty'' ''/dev/ttyUSB0''" "\<not> contains ''COM'' ''cam''"
  "\<not> contains ''/dev/tty'' ''cam''" "\<not> contains ''/dev/tty'' ''COM3''"
  by (simp_all add: contains_def find_eval)

lemmas world_eval = idle_world_def tty_world_def com_world_def com_frame_world_def cam_world_def
  cam_connected_def init_def str_def contains_eval tty_source_def


section \<open>Connecting\<close>








section \<open>Reconnecting\<close>







section \<open>The resolution clamp\<close>

text \<open>
  Claim C9 holds for a 1200 by 600 and for a 400 by 300 image, but not for every image:
  the scaled sizes are \<open>int(shape * (600 / max))\<close> in double precision, and for a
  1109 by 1109 image the product \<open>1109 * (600 / 1109)\<close> is just below 600, so the
  truncation gives 599 by 599 and the larger dimension misses the cap by one.
\<close>

theorem clamp_max_res_misses_cap:
  "clamp_max_res [1109, 1109, 3] = Inr [599, 599, 3]
   \<and> clamp_max_res [600, 1200, 3] = Inr [300, 600, 3]
   \<and> clamp_max_res [300, 400, 3] = Inr [300, 400, 3]"
  by (simp add: clamp_eval)



section \<open>A serial port that is not a COM port\<close>




end
